theory Spec2Isabelle
  imports Main "HOL-Library.Sublist"
begin

section \<open>Strings, JSON values and errors\<close>

text \<open>
  A Python \<open>str\<close> is a sequence of code points. The model covers the code points
  0..255, one \<^typ>\<open>char\<close> each. On them \<open>str.lower()\<close> moves the ASCII capitals
  (65..90) and the Latin-1 capitals (192..222 without the multiplication sign 215) up by 32
  and leaves every other code point alone. The test \<open>a in b\<close> on two strings is
  \<^const>\<open>sublist\<close>: \<open>a\<close> occurs in \<open>b\<close> as a contiguous block.
\<close>

definition lower_char :: "char \<Rightarrow> char" where
  "lower_char c =
     (let n = (of_char c :: nat)
      in if (65 \<le> n \<and> n \<le> 90) \<or> (192 \<le> n \<and> n \<le> 222 \<and> n \<noteq> 215)
         then char_of (n + 32) else c)"

definition lower :: "string \<Rightarrow> string" where
  "lower s = map lower_char s"

abbreviation Uncategorized :: string where
  "Uncategorized \<equiv> ''Uncategorized''"

text \<open>
  What \<open>json.load\<close> returns. An object is the list of the items of the parsed
  \<open>dict\<close>, in insertion order (which \<open>dict.items()\<close> follows). \<open>JNum\<close> stands for
  every number literal: the functions below treat all numbers alike.
\<close>

datatype json =
    JNull
  | JBool bool
  | JNum int
  | JStr string
  | JArr "json list"
  | JObj "(string \<times> json) list"

datatype error =
    OSError
  | JSONDecodeError
  | AttributeError
  | TypeError
  | RequestError
  | ClientError

text \<open>
  What \<open>open\<close> followed by \<open>json.load\<close> meets at a path: nothing readable, text that is
  not JSON, or a JSON document.
\<close>

datatype json_file = Missing | Garbled | Content json

definition read_json :: "json_file \<Rightarrow> error + json" where
  "read_json f =
     (case f of
        Missing \<Rightarrow> Inl OSError
      | Garbled \<Rightarrow> Inl JSONDecodeError
      | Content j \<Rightarrow> Inr j)"

text \<open>A dictionary from descriptions to categories.\<close>

type_synonym result_map = "string \<rightharpoonup> string"

text \<open>
  A Python \<open>set\<close> of descriptions is given by the list of its elements in iteration
  order. The order is unspecified in Python; every theorem below holds for every order.
  A list that stands for a set has no repeated element (\<^const>\<open>distinct\<close>), which is
  assumed only where a statement needs it.
\<close>

section \<open>The categorizer objects\<close>

text \<open>
  The category list is a mutable Python list that several objects refer to, so it lives
  in a store of list objects and the objects hold its address.
\<close>

type_synonym addr = nat

type_synonym store = "addr \<Rightarrow> string list"

record categorizer =
  categories :: addr

record keyword_categorizer = categorizer +
  keyword_rules :: json

section \<open>The keyword tier\<close>

text \<open>\<open>KeywordCategorizer._load_keyword_rules\<close>: any exception while reading gives \<open>{}\<close>.\<close>

definition load_keyword_rules :: "json_file \<Rightarrow> json" where
  "load_keyword_rules f = (case read_json f of Inr j \<Rightarrow> j | Inl e \<Rightarrow> JObj [])"

text \<open>
  Iterating a JSON value with \<open>for\<close>: a list gives its elements, a string its
  characters, a dict its keys; anything else raises \<open>TypeError\<close>.
\<close>

fun py_iter :: "json \<Rightarrow> error + json list" where
  "py_iter (JArr xs) = Inr xs"
| "py_iter (JStr s) = Inr (map (\<lambda>c. JStr [c]) s)"
| "py_iter (JObj kvs) = Inr (map (\<lambda>kv. JStr (fst kv)) kvs)"
| "py_iter _ = Inl TypeError"

text \<open>
  \<open>any(keyword.lower() in desc_lower for keyword in keywords)\<close>: the generator is
  consumed until the first true element; \<open>.lower()\<close> on a value that is not a string
  raises \<open>AttributeError\<close>.
\<close>

fun any_keyword :: "string \<Rightarrow> json list \<Rightarrow> error + bool" where
  "any_keyword desc_lower [] = Inr False"
| "any_keyword desc_lower (JStr keyword # keywords) =
     (if sublist (lower keyword) desc_lower then Inr True
      else any_keyword desc_lower keywords)"
| "any_keyword desc_lower (_ # keywords) = Inl AttributeError"

text \<open>
  The inner loop over \<open>self.keyword_rules.items()\<close>: \<open>Some category\<close> at the \<open>break\<close>,
  \<open>None\<close> when the loop ends with \<open>matched\<close> still false.
\<close>

fun match_category :: "string \<Rightarrow> (string \<times> json) list \<Rightarrow> error + string option" where
  "match_category desc_lower [] = Inr None"
| "match_category desc_lower ((category, keywords) # rest) =
     (case py_iter keywords of
        Inl e \<Rightarrow> Inl e
      | Inr ks \<Rightarrow>
          (case any_keyword desc_lower ks of
             Inl e \<Rightarrow> Inl e
           | Inr True \<Rightarrow> Inr (Some category)
           | Inr False \<Rightarrow> match_category desc_lower rest))"

text \<open>\<open>.items()\<close> exists on a dict only.\<close>

fun py_items :: "json \<Rightarrow> error + (string \<times> json) list" where
  "py_items (JObj kvs) = Inr kvs"
| "py_items _ = Inl AttributeError"

text \<open>The outer loop of \<open>KeywordCategorizer.categorize\<close>, with the dictionary built so far.\<close>

fun keyword_loop :: "json \<Rightarrow> string list \<Rightarrow> result_map \<Rightarrow> error + result_map" where
  "keyword_loop rules [] results = Inr results"
| "keyword_loop rules (desc # descs) results =
     (case py_items rules of
        Inl e \<Rightarrow> Inl e
      | Inr items \<Rightarrow>
          (case match_category (lower desc) items of
             Inl e \<Rightarrow> Inl e
           | Inr (Some category) \<Rightarrow> keyword_loop rules descs (results(desc \<mapsto> category))
           | Inr None \<Rightarrow> keyword_loop rules descs (results(desc \<mapsto> Uncategorized))))"

definition keyword_categorize :: "keyword_categorizer \<Rightarrow> string list \<Rightarrow> error + result_map" where
  "keyword_categorize self descriptions =
     keyword_loop (keyword_rules self) descriptions Map.empty"

text \<open>
  The keyword tier as the specification words it, over rules of the documented shape
  (category names with lists of keyword strings): the first category, in rule order, one of
  whose lowercased keywords occurs in the lowercased description; \<open>Uncategorized\<close> when
  there is none.
\<close>

fun first_match :: "(string \<times> string list) list \<Rightarrow> string \<Rightarrow> string" where
  "first_match [] d = Uncategorized"
| "first_match ((c, kws) # rest) d =
     (if \<exists>k \<in> set kws. sublist (lower k) (lower d) then c else first_match rest d)"

definition rules_json :: "(string \<times> string list) list \<Rightarrow> json" where
  "rules_json rs = JObj (map (\<lambda>(c, kws). (c, JArr (map JStr kws))) rs)"

section \<open>The model tier\<close>

record openai_categorizer = categorizer +
  settings :: json
  model :: json
  hints :: json

text \<open>
  One request of \<open>self.client.responses.create\<close>: the descriptions of the batch (the
  \<open>transaction_objects\<close> of the user message) and the \<open>enum\<close> of the schema, which is the
  category list object itself. The model name and the system message are fixed at
  construction and play no part below.
\<close>

record request =
  req_batch :: "string list"
  req_enum :: "string list"

text \<open>
  One element of \<open>categorized_transactions\<close>, as the loop over the items sees it.
  \<open>Item d c\<close> is an element on which both membership tests and both subscripts are
  defined: \<open>d\<close> and \<open>c\<close> are its description and its category, \<open>None\<close> where the key is
  absent (an element that passes neither test, such as a string or a list without the two
  words, is \<open>Item None None\<close>). \<open>Malformed\<close> is an element on which the tests or the
  subscripts raise (a number, a list or a string containing both words, an unhashable
  description). Descriptions and categories are strings, as the schema declares them; a
  number, a boolean or \<open>null\<close> in their place is outside the model.
\<close>

datatype item = Item "string option" "string option" | Malformed

text \<open>
  What one request comes to. \<open>Raised\<close>: the call, reading \<open>output_text\<close>, \<open>.get\<close> on
  the parsed value or iterating \<open>categorized_transactions\<close> raises. \<open>BadOutput\<close>:
  \<open>json.loads\<close> raises \<open>JSONDecodeError\<close>. \<open>Payload items\<close>: the parsed text is a dict and
  \<open>items\<close> are the elements of its \<open>categorized_transactions\<close> (none when the key is
  absent). The service is the environment: a client is any function from requests to
  responses.
\<close>

datatype response = Raised | BadOutput | Payload "item list"

type_synonym client = "request \<Rightarrow> response"

text \<open>
  The loop \<open>for item in ...\<close>: an exception leaves the loop with the entries written so
  far in place.
\<close>

fun record_items :: "item list \<Rightarrow> result_map \<Rightarrow> result_map \<times> error option" where
  "record_items [] results = (results, None)"
| "record_items (Item (Some d) (Some c) # items) results = record_items items (results(d \<mapsto> c))"
| "record_items (Item _ _ # items) results = record_items items results"
| "record_items (Malformed # items) results = (results, Some TypeError)"

text \<open>The body of the \<open>try\<close> of one batch, after the request has been built.\<close>

definition handle_response :: "response \<Rightarrow> result_map \<Rightarrow> result_map \<times> error option" where
  "handle_response resp results =
     (case resp of
        Raised \<Rightarrow> (results, Some RequestError)
      | BadOutput \<Rightarrow> (results, Some JSONDecodeError)
      | Payload items \<Rightarrow> record_items items results)"

definition batch_size :: nat where
  "batch_size = 50"

text \<open>
  The state of \<open>OpenAICategorizer.categorize\<close>: the \<open>results\<close> dictionary, the requests
  sent so far and the errors logged so far (both handlers log and \<open>continue\<close>).
\<close>

record tier_state =
  st_results :: result_map
  st_requests :: "request list"
  st_logged :: "error list"

text \<open>\<open>for i in range(0, len(description_list), batch_size)\<close>, from index \<open>i\<close> on.\<close>

function batch_loop :: "client \<Rightarrow> string list \<Rightarrow> string list \<Rightarrow> nat \<Rightarrow> tier_state \<Rightarrow> tier_state" where
  "batch_loop client enum description_list i st =
     (if i < length description_list then
        (let batch_descriptions = take batch_size (drop i description_list);
             req = \<lparr>req_batch = batch_descriptions, req_enum = enum\<rparr>
         in case handle_response (client req) (st_results st) of
              (r, err) \<Rightarrow>
                batch_loop client enum description_list (i + batch_size)
                  \<lparr>st_results = r,
                   st_requests = st_requests st @ [req],
                   st_logged = st_logged st @ (case err of None \<Rightarrow> [] | Some e \<Rightarrow> [e])\<rparr>)
      else st)"
  by pat_completeness auto
termination
  by (relation "measure (\<lambda>(client, enum, description_list, i, st). length description_list - i)")
     (auto simp: batch_size_def)

declare batch_loop.simps [simp del]

text \<open>
  The logging loop \<open>for desc in descriptions: ... results[desc]\<close>. \<open>results\<close> is a
  \<open>defaultdict\<close>: reading a missing key stores the default \<open>"Uncategorized"\<close> under it.
\<close>

fun log_results :: "string list \<Rightarrow> result_map \<Rightarrow> result_map" where
  "log_results [] results = results"
| "log_results (desc # descs) results =
     log_results descs (if results desc = None then results(desc \<mapsto> Uncategorized) else results)"

text \<open>
  \<open>OpenAICategorizer.categorize\<close>. \<open>h\<close> is the store, \<open>info\<close> is
  \<open>logger.isEnabledFor(logging.INFO)\<close>. \<open>st_results\<close> of the state returned is the
  dictionary returned.
\<close>

definition openai_categorize ::
    "store \<Rightarrow> openai_categorizer \<Rightarrow> client \<Rightarrow> bool \<Rightarrow> string list \<Rightarrow> tier_state" where
  "openai_categorize h self client info descriptions =
     (if descriptions = [] then \<lparr>st_results = Map.empty, st_requests = [], st_logged = []\<rparr>
      else
        (let st = batch_loop client (h (categories self)) descriptions 0
                    \<lparr>st_results = Map.empty, st_requests = [], st_logged = []\<rparr>
         in if info then st\<lparr>st_results := log_results descriptions (st_results st)\<rparr> else st))"

text \<open>
  The pairs \<open>{description, category}\<close> that a response holds, for the statements below:
  the elements with both keys, in order.
\<close>

fun pairs :: "item list \<Rightarrow> (string \<times> string) list" where
  "pairs [] = []"
| "pairs (Item (Some d) (Some c) # items) = (d, c) # pairs items"
| "pairs (_ # items) = pairs items"

definition answers :: "response \<Rightarrow> (string \<times> string) list" where
  "answers resp = (case resp of Payload items \<Rightarrow> pairs items | _ \<Rightarrow> [])"

section \<open>The orchestrator\<close>

text \<open>The interface of \<open>Categorizer.categorize\<close>.\<close>

type_synonym categorize_method = "string list \<Rightarrow> error + result_map"

text \<open>
  \<open>{desc for desc, cat in keyword_results.items() if cat == "Uncategorized"}\<close>; the keys
  of \<open>keyword_results\<close> are the descriptions.
\<close>

definition uncategorized :: "result_map \<Rightarrow> string list \<Rightarrow> string list" where
  "uncategorized keyword_results descriptions =
     filter (\<lambda>desc. keyword_results desc = Some Uncategorized) descriptions"

text \<open>
  \<open>MainCategorizer.categorize\<close>, with the \<open>categorize\<close> method of
  \<open>self.openai_categorizer\<close> as \<open>tier2\<close>. The keyword tier runs outside the \<open>try\<close>;
  \<open>dict.update\<close> is \<open>++\<close>.
\<close>

definition main_categorize_with ::
    "keyword_categorizer \<Rightarrow> categorize_method \<Rightarrow> string list \<Rightarrow> error + result_map" where
  "main_categorize_with kc tier2 descriptions =
     (case keyword_categorize kc descriptions of
        Inl e \<Rightarrow> Inl e
      | Inr keyword_results \<Rightarrow>
          (if uncategorized keyword_results descriptions \<noteq> [] then
             (case tier2 (uncategorized keyword_results descriptions) of
                Inr openai_results \<Rightarrow> Inr (keyword_results ++ openai_results)
              | Inl e \<Rightarrow> Inr keyword_results)
           else Inr keyword_results))"

record main_categorizer = categorizer +
  keyword_categorizer :: keyword_categorizer
  openai_categorizer :: openai_categorizer

text \<open>
  The method of the model tier. Every statement of \<open>OpenAICategorizer.categorize\<close> that
  can raise stands inside the \<open>try\<close> of its batch, so the method itself returns.
\<close>

definition openai_method :: "store \<Rightarrow> openai_categorizer \<Rightarrow> client \<Rightarrow> bool \<Rightarrow> categorize_method" where
  "openai_method h self client info descriptions =
     Inr (st_results (openai_categorize h self client info descriptions))"

definition main_categorize ::
    "store \<Rightarrow> main_categorizer \<Rightarrow> client \<Rightarrow> bool \<Rightarrow> string list \<Rightarrow> error + result_map" where
  "main_categorize h self client info descriptions =
     main_categorize_with (keyword_categorizer self)
       (openai_method h (openai_categorizer self) client info) descriptions"

section \<open>Construction\<close>

text \<open>\<open>Categorizer.__init__\<close> stores the reference it is given.\<close>

definition categorizer_init :: "addr \<Rightarrow> categorizer" where
  "categorizer_init cats = \<lparr>categories = cats\<rparr>"

definition keyword_init :: "addr \<Rightarrow> json_file \<Rightarrow> keyword_categorizer" where
  "keyword_init cats keyword_rules_file =
     \<lparr>categories = categories (categorizer_init cats),
      keyword_rules = load_keyword_rules keyword_rules_file\<rparr>"

text \<open>\<open>OpenAICategorizer._load_settings\<close>.\<close>

definition load_settings :: "json_file \<Rightarrow> json" where
  "load_settings f = (case read_json f of Inr j \<Rightarrow> j | Inl e \<Rightarrow> JObj [])"

text \<open>\<open>x.get(key, default)\<close>: only a dict has the method.\<close>

fun py_get :: "json \<Rightarrow> string \<Rightarrow> json \<Rightarrow> error + json" where
  "py_get (JObj kvs) key dflt = Inr (case map_of kvs key of Some v \<Rightarrow> v | None \<Rightarrow> dflt)"
| "py_get _ key dflt = Inl AttributeError"

text \<open>The truth value of a JSON value, as \<open>not self.hints\<close> reads it.\<close>

fun truthy :: "json \<Rightarrow> bool" where
  "truthy JNull = False"
| "truthy (JBool b) = b"
| "truthy (JNum n) = (n \<noteq> 0)"
| "truthy (JStr s) = (s \<noteq> [])"
| "truthy (JArr xs) = (xs \<noteq> [])"
| "truthy (JObj kvs) = (kvs \<noteq> [])"

text \<open>
  Whether \<open>_format_hints\<close> raises; the text it builds is not modelled. The test
  \<open>category in self.hints\<close> is defined on a dict, a list and a string; the subscript
  \<open>self.hints[category]\<close> on a dict only.
\<close>

fun format_hints :: "json \<Rightarrow> string list \<Rightarrow> error option" where
  "format_hints hs [] = None"
| "format_hints (JObj kvs) (category # rest) = None"
| "format_hints (JArr xs) (category # rest) =
     (if JStr category \<in> set xs then Some TypeError else format_hints (JArr xs) rest)"
| "format_hints (JStr s) (category # rest) =
     (if sublist category s then Some TypeError else format_hints (JStr s) rest)"
| "format_hints _ (category # rest) = Some TypeError"

text \<open>
  \<open>OpenAICategorizer.__init__\<close>. The append to the caller's list comes first; the rest
  of the constructor may raise, with the list already changed. \<open>new_client\<close> stands for
  the constructor \<open>OpenAI(api_key=...)\<close> of the client library: the error it raises for
  the key it is given, if any.
\<close>

definition openai_init ::
    "(json \<Rightarrow> error option) \<Rightarrow> store \<Rightarrow> addr \<Rightarrow> json_file \<Rightarrow> store \<times> (error + openai_categorizer)" where
  "openai_init new_client h cats ai_settings_file =
     (let h' = (if Uncategorized \<notin> set (h cats) then h(cats := h cats @ [Uncategorized]) else h);
          stg = load_settings ai_settings_file
      in (h',
          case py_get stg ''openai'' (JObj []) of
            Inl e \<Rightarrow> Inl e
          | Inr sect \<Rightarrow>
              (case py_get sect ''model'' (JStr ''gpt-4.1-nano'') of
                 Inl e \<Rightarrow> Inl e
               | Inr mdl \<Rightarrow>
                   (case py_get sect ''api_key'' JNull of
                      Inl e \<Rightarrow> Inl e
                    | Inr key \<Rightarrow>
                        (case new_client key of
                           Some e \<Rightarrow> Inl e
                         | None \<Rightarrow>
                             (case py_get stg ''category_hints'' (JObj []) of
                                Inl e \<Rightarrow> Inl e
                              | Inr hs \<Rightarrow>
                                  (case (if truthy hs then format_hints hs (h' cats) else None) of
                                     Some e \<Rightarrow> Inl e
                                   | None \<Rightarrow>
                                       Inr \<lparr>categories = cats, settings = stg,
                                            model = mdl, hints = hs\<rparr>)))))))"

text \<open>
  \<open>MainCategorizer.__init__\<close>: the same reference goes to the base class, to the keyword
  tier and to the model tier.
\<close>

definition main_init ::
    "(json \<Rightarrow> error option) \<Rightarrow> store \<Rightarrow> addr \<Rightarrow> json_file \<Rightarrow> json_file \<Rightarrow>
       store \<times> (error + main_categorizer)" where
  "main_init new_client h cats keyword_rules_file ai_settings_file =
     (let kc = keyword_init cats keyword_rules_file
      in case openai_init new_client h cats ai_settings_file of
           (h', Inl e) \<Rightarrow> (h', Inl e)
         | (h', Inr oc) \<Rightarrow>
             (h', Inr \<lparr>categories = cats, keyword_categorizer = kc, openai_categorizer = oc\<rparr>))"

section \<open>The description normalizer\<close>

text \<open>
  The regular expressions of \<open>clean_descriptions\<close> are sequences of character classes,
  each taken once or with \<open>+\<close>. \<open>\d\<close> is a decimal digit, \<open>[A-Z]\<close> an ASCII capital and
  \<open>\s\<close> a character for which \<open>str.isspace\<close> holds (below 256: 9..13, 28..32, 133, 160).
\<close>

datatype cls = Lit char | Digit | Upper | Space

definition is_space :: "char \<Rightarrow> bool" where
  "is_space c =
     (let n = (of_char c :: nat)
      in (9 \<le> n \<and> n \<le> 13) \<or> (28 \<le> n \<and> n \<le> 32) \<or> n = 133 \<or> n = 160)"

fun cls_match :: "cls \<Rightarrow> char \<Rightarrow> bool" where
  "cls_match (Lit a) c = (c = a)"
| "cls_match Digit c = (48 \<le> (of_char c :: nat) \<and> (of_char c :: nat) \<le> 57)"
| "cls_match Upper c = (65 \<le> (of_char c :: nat) \<and> (of_char c :: nat) \<le> 90)"
| "cls_match Space c = is_space c"

datatype atom = One cls | Many cls

text \<open>\<open>Anchored\<close> is a pattern that starts with \<open>^\<close> (no \<open>re.MULTILINE\<close>).\<close>

datatype regex = Anywhere "atom list" | Anchored "atom list"

text \<open>
  The length of the match of the atoms at the start of the string, as the backtracking
  matcher of \<open>re\<close> finds it: \<open>+\<close> is greedy, so one more repetition is tried before the rest
  of the pattern.
\<close>

fun match_here :: "atom list \<Rightarrow> string \<Rightarrow> nat option" where
  "match_here [] s = Some 0"
| "match_here (a # atoms) [] = None"
| "match_here (One k # atoms) (c # s) =
     (if cls_match k c then map_option Suc (match_here atoms s) else None)"
| "match_here (Many k # atoms) (c # s) =
     (if cls_match k c then
        (case match_here (Many k # atoms) s of
           Some n \<Rightarrow> Some (Suc n)
         | None \<Rightarrow> map_option Suc (match_here atoms s))
      else None)"

text \<open>
  \<open>re.sub(pattern, repl, s)\<close>: the leftmost match is replaced and the scan goes on behind
  it. Every pattern of the normalizer has an atom, so no match is empty.
\<close>

function re_sub_from :: "atom list \<Rightarrow> string \<Rightarrow> string \<Rightarrow> string" where
  "re_sub_from atoms repl [] = []"
| "re_sub_from atoms repl (c # s) =
     (case match_here atoms (c # s) of
        Some (Suc n) \<Rightarrow> repl @ re_sub_from atoms repl (drop n s)
      | _ \<Rightarrow> c # re_sub_from atoms repl s)"
  by pat_completeness auto
termination
  by (relation "measure (\<lambda>(atoms, repl, s). length s)") auto

fun re_sub :: "regex \<Rightarrow> string \<Rightarrow> string \<Rightarrow> string" where
  "re_sub (Anywhere atoms) repl s = re_sub_from atoms repl s"
| "re_sub (Anchored atoms) repl s =
     (case match_here atoms s of
        Some (Suc n) \<Rightarrow> repl @ drop (Suc n) s
      | _ \<Rightarrow> s)"

text \<open>\<open>str.strip()\<close>.\<close>

definition strip :: "string \<Rightarrow> string" where
  "strip s = rev (dropWhile is_space (rev (dropWhile is_space s)))"

definition lit :: "string \<Rightarrow> atom list" where
  "lit s = map (\<lambda>c. One (Lit c)) s"

text \<open>The list \<open>patterns\<close> of \<open>clean_descriptions\<close>, in its order.\<close>

definition patterns :: "regex list" where
  "patterns =
     [Anywhere (replicate 2 (One Digit) @ lit ''.'' @ replicate 2 (One Digit) @ lit ''.'' @
                replicate 4 (One Digit) @ lit '' '' @ replicate 2 (One Digit) @ lit '':'' @
                replicate 2 (One Digit)),
      Anywhere (lit ''Karte: '' @ [Many Digit, Many (Lit CHR ''*''), Many Digit]),
      Anywhere (lit ''Betrag: '' @ replicate 3 (One Upper) @ lit '' '' @
                [Many Digit] @ lit ''.'' @ [Many Digit]),
      Anchored (lit ''Einkauf'' @ [Many Space]),
      Anywhere ([Many Digit] @ lit ''/PP.'' @ [Many Digit] @ lit ''.PP/.''),
      Anywhere (lit ''Ihr Einkauf bei'')]"

text \<open>
  What \<open>clean_descriptions\<close> does to one value of the \<open>description\<close> column: the six
  removals in order, \<open>\s+\<close> replaced by one space, then \<open>strip\<close>.
\<close>

definition remove_patterns :: "string \<Rightarrow> string" where
  "remove_patterns description = foldl (\<lambda>s p. re_sub p [] s) description patterns"

definition clean_description :: "string \<Rightarrow> string" where
  "clean_description description =
     strip (re_sub (Anywhere [Many Space]) '' '' (remove_patterns description))"

definition clean_descriptions :: "string list \<Rightarrow> string list" where
  "clean_descriptions column = map clean_description column"

text \<open>Whether a pattern has a match somewhere in a string.\<close>

fun has_match_from :: "atom list \<Rightarrow> string \<Rightarrow> bool" where
  "has_match_from atoms [] = False"
| "has_match_from atoms (c # s) =
     (case match_here atoms (c # s) of
        Some (Suc n) \<Rightarrow> True
      | _ \<Rightarrow> has_match_from atoms s)"

fun has_match :: "regex \<Rightarrow> string \<Rightarrow> bool" where
  "has_match (Anywhere atoms) s = has_match_from atoms s"
| "has_match (Anchored atoms) s =
     (case match_here atoms s of Some (Suc n) \<Rightarrow> True | _ \<Rightarrow> False)"

text \<open>
  Text in which whitespace is normal: every whitespace character is a space (32) and is
  followed by a character that is not whitespace, if by any.
\<close>

fun ws_normal :: "string \<Rightarrow> bool" where
  "ws_normal [] = True"
| "ws_normal [c] = (is_space c \<longrightarrow> c = CHR '' '')"
| "ws_normal (c # d # s) = ((is_space c \<longrightarrow> c = CHR '' '' \<and> \<not> is_space d) \<and> ws_normal (d # s))"

section \<open>Properties of the keyword tier\<close>

lemma any_keyword_strings:
  "any_keyword dl (map JStr kws) = Inr (\<exists>k \<in> set kws. sublist (lower k) dl)"
  by (induction kws) auto

lemma match_category_rules:
  "\<exists>m. match_category (lower d) (map (\<lambda>(c, kws). (c, JArr (map JStr kws))) rs) = Inr m \<and>
       (case m of Some c \<Rightarrow> c | None \<Rightarrow> Uncategorized) = first_match rs d"
  by (induction rs) (auto simp: any_keyword_strings)

lemma keyword_loop_step:
  "keyword_loop (rules_json rs) (d # ds) results =
     keyword_loop (rules_json rs) ds (results(d \<mapsto> first_match rs d))"
proof -
  obtain m where m:
    "match_category (lower d) (map (\<lambda>(c, kws). (c, JArr (map JStr kws))) rs) = Inr m"
    "(case m of Some c \<Rightarrow> c | None \<Rightarrow> Uncategorized) = first_match rs d"
    using match_category_rules by blast
  then show ?thesis
    by (cases m) (simp_all add: rules_json_def)
qed

lemma keyword_loop_rules:
  "keyword_loop (rules_json rs) ds results =
     Inr (\<lambda>d. if d \<in> set ds then Some (first_match rs d) else results d)"
proof (induction ds arbitrary: results)
  case Nil
  show ?case by simp
next
  case (Cons d ds)
  have "keyword_loop (rules_json rs) (d # ds) results =
          Inr (\<lambda>x. if x \<in> set ds then Some (first_match rs x)
                    else (results(d \<mapsto> first_match rs d)) x)"
    unfolding keyword_loop_step by (rule Cons.IH)
  also have "(\<lambda>x. if x \<in> set ds then Some (first_match rs x)
                   else (results(d \<mapsto> first_match rs d)) x) =
             (\<lambda>x. if x \<in> set (d # ds) then Some (first_match rs x) else results x)"
    by (auto simp: fun_eq_iff)
  finally show ?case .
qed

text \<open>
  C5. The keyword tier lowercases the description and tests the lowercased keywords of each
  category as substrings, in the order of the rules; the first category with a matching
  keyword is assigned, and \<open>Uncategorized\<close> when no category matches: on rules of the
  documented shape the source's loops compute exactly \<^const>\<open>first_match\<close> for every
  description of the input, and the dictionary has no other key.
\<close>

theorem keyword_categorize_first_match:
  "keyword_categorize (self\<lparr>keyword_rules := rules_json rs\<rparr>) ds =
     Inr (\<lambda>d. if d \<in> set ds then Some (first_match rs d) else None)"
  by (simp add: keyword_categorize_def keyword_loop_rules)

theorem keyword_categorize_first_match_witness:
  "\<exists>m. keyword_categorize
         \<lparr>categories = 0,
          keyword_rules = rules_json [(''Groceries'', [''migros'']), (''Food'', [''MIGROS'', ''coop'']),
                                      (''Transport'', [''sbb''])]\<rparr>
         [''MIGROS Zurich'', ''SBB Ticket'', ''Unknown Shop''] = Inr m \<and>
       m ''MIGROS Zurich'' = Some ''Groceries'' \<and>
       m ''SBB Ticket'' = Some ''Transport'' \<and>
       m ''Unknown Shop'' = Some Uncategorized \<and>
       m ''Coop City'' = None"
proof -
  let ?rs = "[(''Groceries'', [''migros'']), (''Food'', [''MIGROS'', ''coop'']),
              (''Transport'', [''sbb''])]"
  have 1: "first_match ?rs ''MIGROS Zurich'' = ''Groceries''" by code_simp
  have 2: "first_match ?rs ''SBB Ticket'' = ''Transport''" by code_simp
  have 3: "first_match ?rs ''Unknown Shop'' = Uncategorized" by code_simp
  show ?thesis
    using keyword_categorize_first_match
      [where self = "\<lparr>categories = 0, keyword_rules = JNull\<rparr>" and rs = ?rs
         and ds = "[''MIGROS Zurich'', ''SBB Ticket'', ''Unknown Shop'']"]
    by (simp add: 1 2 3 del: first_match.simps)
qed

section \<open>Properties of the model tier\<close>

lemma batch_loop_requests:
  "concat (map req_batch (st_requests (batch_loop client enum dl i st))) =
     concat (map req_batch (st_requests st)) @ drop i dl"
proof (induction client enum dl i st rule: batch_loop.induct)
  case (1 client enum dl i st)
  show ?case
  proof (cases "i < length dl")
    case False
    then show ?thesis by (simp add: batch_loop.simps)
  next
    case True
    let ?req = "\<lparr>req_batch = take batch_size (drop i dl), req_enum = enum\<rparr>"
    obtain r err where h: "handle_response (client ?req) (st_results st) = (r, err)"
      by (cases "handle_response (client ?req) (st_results st)")
    have "take batch_size (drop i dl) @ drop (i + batch_size) dl = drop i dl"
      by (metis add.commute append_take_drop_id drop_drop)
    with True h "1.IH" [OF True refl refl h [symmetric]] show ?thesis
      by (subst batch_loop.simps) (simp add: Let_def)
  qed
qed

lemma ceil_step: "0 < (n::nat) \<Longrightarrow> (n + 49) div 50 = Suc ((n - 50 + 49) div 50)"
  by (cases "50 \<le> n") (simp_all add: le_div_geq)

lemma batch_loop_count:
  "length (st_requests (batch_loop client enum dl i st)) =
     length (st_requests st) + (length dl - i + (batch_size - 1)) div batch_size"
proof (induction client enum dl i st rule: batch_loop.induct)
  case (1 client enum dl i st)
  show ?case
  proof (cases "i < length dl")
    case False
    then show ?thesis by (simp add: batch_loop.simps batch_size_def)
  next
    case True
    let ?req = "\<lparr>req_batch = take batch_size (drop i dl), req_enum = enum\<rparr>"
    obtain r err where h: "handle_response (client ?req) (st_results st) = (r, err)"
      by (cases "handle_response (client ?req) (st_results st)")
    have "(length dl - i + 49) div 50 = Suc ((length dl - (i + 50) + 49) div 50)"
      using True ceil_step [of "length dl - i"] by simp
    with True h "1.IH" [OF True refl refl h [symmetric]] show ?thesis
      by (subst batch_loop.simps) (simp add: Let_def batch_size_def)
  qed
qed


lemma batch_loop_each:
  "req \<in> set (st_requests (batch_loop client enum dl i st)) \<Longrightarrow>
     req \<in> set (st_requests st) \<or>
     (req_batch req \<noteq> [] \<and> length (req_batch req) \<le> batch_size \<and> req_enum req = enum \<and>
      set (req_batch req) \<subseteq> set dl)"
proof (induction client enum dl i st rule: batch_loop.induct)
  case (1 client enum dl i st)
  show ?case
  proof (cases "i < length dl")
    case False
    with "1.prems" show ?thesis by (simp add: batch_loop.simps)
  next
    case True
    let ?req = "\<lparr>req_batch = take batch_size (drop i dl), req_enum = enum\<rparr>"
    obtain r err where h: "handle_response (client ?req) (st_results st) = (r, err)"
      by (cases "handle_response (client ?req) (st_results st)")
    let ?st = "\<lparr>st_results = r, st_requests = st_requests st @ [?req],
               st_logged = st_logged st @ (case err of None \<Rightarrow> [] | Some e \<Rightarrow> [e])\<rparr>"
    have step: "batch_loop client enum dl i st = batch_loop client enum dl (i + batch_size) ?st"
      using True h by (subst batch_loop.simps) (simp add: Let_def)
    from "1.prems" have "req \<in> set (st_requests (batch_loop client enum dl (i + batch_size) ?st))"
      by (simp only: step)
    from "1.IH" [OF True refl refl h [symmetric] this]
    consider "req \<in> set (st_requests st)" | "req = ?req"
      | "req_batch req \<noteq> [] \<and> length (req_batch req) \<le> batch_size \<and> req_enum req = enum \<and>
         set (req_batch req) \<subseteq> set dl"
      by auto
    then show ?thesis
    proof cases
      case 2
      have "set (take batch_size (drop i dl)) \<subseteq> set dl"
        by (meson set_drop_subset set_take_subset subset_trans)
      with 2 True show ?thesis by (simp add: batch_size_def)
    qed auto
  qed
qed

text \<open>
  C4. The requests of the model tier partition its input into ordered batches: joined in
  order the batches give the input list back, no batch is empty or longer than 50, there
  are exactly \<open>\<lceil>n / 50\<rceil>\<close> of them for \<open>n\<close> descriptions (none for the empty input, one for
  one description, \<open>k\<close> for \<open>50 * k\<close>), and no description of a duplicate-free input occurs
  twice in them. On the empty input the tier returns the empty dictionary and sends nothing.
\<close>

theorem openai_categorize_batches:
  "concat (map req_batch (st_requests (openai_categorize h self client info ds))) = ds \<and>
   (\<forall>req \<in> set (st_requests (openai_categorize h self client info ds)).
      req_batch req \<noteq> [] \<and> length (req_batch req) \<le> 50) \<and>
   length (st_requests (openai_categorize h self client info ds)) = (length ds + 49) div 50 \<and>
   (distinct ds \<longrightarrow>
      distinct (concat (map req_batch (st_requests (openai_categorize h self client info ds))))) \<and>
   openai_categorize h self client info [] =
     \<lparr>st_results = Map.empty, st_requests = [], st_logged = []\<rparr>"
proof -
  let ?st0 = "\<lparr>st_results = Map.empty, st_requests = [], st_logged = []\<rparr>"
  have rq: "st_requests (openai_categorize h self client info ds) =
              st_requests (batch_loop client (h (categories self)) ds 0 ?st0)"
    by (cases "ds = []") (simp_all add: openai_categorize_def batch_loop.simps Let_def)
  have 1: "concat (map req_batch (st_requests (openai_categorize h self client info ds))) = ds"
    unfolding rq by (simp add: batch_loop_requests)
  have 2: "\<forall>req \<in> set (st_requests (openai_categorize h self client info ds)).
             req_batch req \<noteq> [] \<and> length (req_batch req) \<le> 50"
    unfolding rq using batch_loop_each [of _ client "h (categories self)" ds 0 ?st0]
    by (auto simp: batch_size_def)
  have 3: "length (st_requests (openai_categorize h self client info ds)) = (length ds + 49) div 50"
    unfolding rq by (simp add: batch_loop_count batch_size_def)
  have 4: "openai_categorize h self client info [] = ?st0"
    by (simp add: openai_categorize_def)
  from 1 2 3 4 show ?thesis by simp
qed

theorem openai_categorize_batches_witness:
  "length (st_requests (openai_categorize (\<lambda>a. [''Food'', Uncategorized])
       \<lparr>categories = 0, settings = JObj [], model = JStr ''gpt-4.1-nano'', hints = JObj []\<rparr>
       (\<lambda>req. Raised) True (map (\<lambda>n. replicate n CHR ''x'') [0..<100]))) = 2 \<and>
   concat (map req_batch (st_requests (openai_categorize (\<lambda>a. [''Food'', Uncategorized])
       \<lparr>categories = 0, settings = JObj [], model = JStr ''gpt-4.1-nano'', hints = JObj []\<rparr>
       (\<lambda>req. Raised) True (map (\<lambda>n. replicate n CHR ''x'') [0..<100])))) =
     map (\<lambda>n. replicate n CHR ''x'') [0..<100] \<and>
   distinct (concat (map req_batch (st_requests (openai_categorize (\<lambda>a. [''Food'', Uncategorized])
       \<lparr>categories = 0, settings = JObj [], model = JStr ''gpt-4.1-nano'', hints = JObj []\<rparr>
       (\<lambda>req. Raised) True (map (\<lambda>n. replicate n CHR ''x'') [0..<100])))))"
proof -
  have d: "distinct (map (\<lambda>n. replicate n CHR ''x'') [0..<100])"
    by (auto simp: distinct_map inj_on_def dest: arg_cong [where f = length])
  show ?thesis
    using d openai_categorize_batches
      [where ds = "map (\<lambda>n. replicate n CHR ''x'') [0..<100]" and h = "\<lambda>a. [''Food'', Uncategorized]"
         and client = "\<lambda>req. Raised" and info = True
         and self = "\<lparr>categories = 0, settings = JObj [], model = JStr ''gpt-4.1-nano'', hints = JObj []\<rparr>"]
    by simp
qed

lemma record_items_source:
  "fst (record_items items r) d = Some c \<Longrightarrow> r d = Some c \<or> (d, c) \<in> set (pairs items)"
  by (induction items r rule: record_items.induct) (auto split: if_splits)

lemma record_items_dom: "dom r \<subseteq> dom (fst (record_items items r))"
proof (induction items r rule: record_items.induct)
  case (2 d c items results)
  have "dom results \<subseteq> dom (results(d \<mapsto> c))" by auto
  also note "2.IH"
  finally show ?case by (simp only: record_items.simps)
qed simp_all


lemma handle_response_source:
  "fst (handle_response resp r) d = Some c \<Longrightarrow> r d = Some c \<or> (d, c) \<in> set (answers resp)"
  by (cases resp) (auto simp: handle_response_def answers_def dest: record_items_source)

lemma handle_response_dom: "dom r \<subseteq> dom (fst (handle_response resp r))"
  using record_items_dom by (cases resp) (auto simp: handle_response_def)

lemma handle_response_failed:
  "resp = Raised \<or> resp = BadOutput \<Longrightarrow> fst (handle_response resp r) = r"
  by (auto simp: handle_response_def)

lemma batch_loop_step:
  assumes "i < length dl"
  shows "batch_loop client enum dl i st =
     batch_loop client enum dl (i + batch_size)
       \<lparr>st_results = fst (handle_response
            (client \<lparr>req_batch = take batch_size (drop i dl), req_enum = enum\<rparr>) (st_results st)),
        st_requests = st_requests st @ [\<lparr>req_batch = take batch_size (drop i dl), req_enum = enum\<rparr>],
        st_logged = st_logged st @
          (case snd (handle_response
             (client \<lparr>req_batch = take batch_size (drop i dl), req_enum = enum\<rparr>) (st_results st)) of
             None \<Rightarrow> [] | Some e \<Rightarrow> [e])\<rparr>"
  using assms by (subst batch_loop.simps) (simp add: Let_def split: prod.split)

lemma batch_loop_done: "\<not> i < length dl \<Longrightarrow> batch_loop client enum dl i st = st"
  by (subst batch_loop.simps) simp

lemma batch_loop_source:
  "st_results (batch_loop client enum dl i st) d = Some c \<Longrightarrow>
     st_results st d = Some c \<or>
     (\<exists>req. req_enum req = enum \<and> req_batch req \<noteq> [] \<and> set (req_batch req) \<subseteq> set dl \<and>
            (d, c) \<in> set (answers (client req)))"
proof (induction client enum dl i st rule: batch_loop.induct)
  case (1 client enum dl i st)
  show ?case
  proof (cases "i < length dl")
    case False
    with "1.prems" show ?thesis by (simp add: batch_loop_done)
  next
    case True
    let ?req = "\<lparr>req_batch = take batch_size (drop i dl), req_enum = enum\<rparr>"
    obtain r err where h: "handle_response (client ?req) (st_results st) = (r, err)"
      by (cases "handle_response (client ?req) (st_results st)")
    let ?st = "\<lparr>st_results = r, st_requests = st_requests st @ [?req],
               st_logged = st_logged st @ (case err of None \<Rightarrow> [] | Some e \<Rightarrow> [e])\<rparr>"
    have step: "batch_loop client enum dl i st = batch_loop client enum dl (i + batch_size) ?st"
      using batch_loop_step [OF True, of client enum st] h by simp
    from "1.prems" have "st_results (batch_loop client enum dl (i + batch_size) ?st) d = Some c"
      by (simp only: step)
    from "1.IH" [OF True refl refl h [symmetric] this]
    consider "r d = Some c"
      | "\<exists>req. req_enum req = enum \<and> req_batch req \<noteq> [] \<and> set (req_batch req) \<subseteq> set dl \<and>
               (d, c) \<in> set (answers (client req))"
      by auto
    then show ?thesis
    proof cases
      case 1
      then have "fst (handle_response (client ?req) (st_results st)) d = Some c"
        by (simp add: h)
      from handle_response_source [OF this]
      consider "st_results st d = Some c" | "(d, c) \<in> set (answers (client ?req))"
        by auto
      then show ?thesis
      proof cases
        case 2
        have "set (take batch_size (drop i dl)) \<subseteq> set dl"
          by (meson set_drop_subset set_take_subset subset_trans)
        moreover have "take batch_size (drop i dl) \<noteq> []"
          using True by (simp add: batch_size_def)
        ultimately have "req_enum ?req = enum \<and> req_batch ?req \<noteq> [] \<and>
            set (req_batch ?req) \<subseteq> set dl \<and> (d, c) \<in> set (answers (client ?req))"
          using 2 by simp
        then show ?thesis by blast
      qed simp
    qed simp
  qed
qed

lemma batch_loop_dom: "dom (st_results st) \<subseteq> dom (st_results (batch_loop client enum dl i st))"
proof (induction client enum dl i st rule: batch_loop.induct)
  case (1 client enum dl i st)
  show ?case
  proof (cases "i < length dl")
    case False
    then show ?thesis by (simp add: batch_loop_done)
  next
    case True
    let ?req = "\<lparr>req_batch = take batch_size (drop i dl), req_enum = enum\<rparr>"
    obtain r err where h: "handle_response (client ?req) (st_results st) = (r, err)"
      by (cases "handle_response (client ?req) (st_results st)")
    let ?st = "\<lparr>st_results = r, st_requests = st_requests st @ [?req],
               st_logged = st_logged st @ (case err of None \<Rightarrow> [] | Some e \<Rightarrow> [e])\<rparr>"
    have step: "batch_loop client enum dl i st = batch_loop client enum dl (i + batch_size) ?st"
      using batch_loop_step [OF True, of client enum st] h by simp
    have "dom (st_results st) \<subseteq> dom r"
      using handle_response_dom [of "st_results st" "client ?req"] h by simp
    also have "dom r \<subseteq> dom (st_results (batch_loop client enum dl (i + batch_size) ?st))"
      using "1.IH" [OF True refl refl h [symmetric]] by simp
    finally show ?thesis by (simp only: step)
  qed
qed

lemma batch_loop_no_pairs:
  assumes "\<forall>req. answers (client req) = []"
  shows "st_results (batch_loop client enum dl i st) = st_results st"
proof
  fix d
  show "st_results (batch_loop client enum dl i st) d = st_results st d"
  proof (cases "st_results (batch_loop client enum dl i st) d")
    case None
    with batch_loop_dom [of st client enum dl i] have "st_results st d = None"
      by (meson domIff subsetD)
    with None show ?thesis by simp
  next
    case (Some c)
    from batch_loop_source [OF this] assms show ?thesis using Some by simp
  qed
qed



lemma log_results_eq:
  "log_results ds r d =
     (case r d of Some c \<Rightarrow> Some c | None \<Rightarrow> if d \<in> set ds then Some Uncategorized else None)"
  by (induction ds arbitrary: r) (auto split: option.splits)

lemma openai_results_False:
  "st_results (openai_categorize h self client False ds) =
     st_results (batch_loop client (h (categories self)) ds 0
       \<lparr>st_results = Map.empty, st_requests = [], st_logged = []\<rparr>)"
  by (cases "ds = []") (simp_all add: openai_categorize_def batch_loop_done Let_def)

lemma openai_results_True:
  "st_results (openai_categorize h self client True ds) =
     log_results ds (st_results (openai_categorize h self client False ds))"
proof (cases "ds = []")
  case True
  then show ?thesis by (simp add: openai_categorize_def)
next
  case False
  then show ?thesis by (simp add: openai_categorize_def Let_def)
qed

lemma openai_requests:
  "st_requests (openai_categorize h self client info ds) =
     st_requests (batch_loop client (h (categories self)) ds 0
       \<lparr>st_results = Map.empty, st_requests = [], st_logged = []\<rparr>)"
  by (cases "ds = []") (simp_all add: openai_categorize_def batch_loop_done Let_def)


lemma batch_loop_requests_prefix:
  "\<exists>rs. st_requests (batch_loop client enum dl i st) = st_requests st @ rs"
proof (induction client enum dl i st rule: batch_loop.induct)
  case (1 client enum dl i st)
  show ?case
  proof (cases "i < length dl")
    case False
    then show ?thesis by (simp add: batch_loop_done)
  next
    case True
    let ?req = "\<lparr>req_batch = take batch_size (drop i dl), req_enum = enum\<rparr>"
    obtain r err where h: "handle_response (client ?req) (st_results st) = (r, err)"
      by (cases "handle_response (client ?req) (st_results st)")
    let ?st = "\<lparr>st_results = r, st_requests = st_requests st @ [?req],
               st_logged = st_logged st @ (case err of None \<Rightarrow> [] | Some e \<Rightarrow> [e])\<rparr>"
    have step: "batch_loop client enum dl i st = batch_loop client enum dl (i + batch_size) ?st"
      using batch_loop_step [OF True, of client enum st] h by simp
    from "1.IH" [OF True refl refl h [symmetric]]
    obtain rs where "st_requests (batch_loop client enum dl (i + batch_size) ?st) =
        st_requests ?st @ rs"
      by blast
    then have "st_requests (batch_loop client enum dl i st) = st_requests st @ (?req # rs)"
      by (simp only: step) simp
    then show ?thesis by blast
  qed
qed

lemma batch_loop_source_sent:
  "st_results (batch_loop client enum dl i st) d = Some c \<Longrightarrow>
     st_results st d = Some c \<or>
     (\<exists>req \<in> set (st_requests (batch_loop client enum dl i st)).
        (d, c) \<in> set (answers (client req)))"
proof (induction client enum dl i st rule: batch_loop.induct)
  case (1 client enum dl i st)
  show ?case
  proof (cases "i < length dl")
    case False
    with "1.prems" show ?thesis by (simp add: batch_loop_done)
  next
    case True
    let ?req = "\<lparr>req_batch = take batch_size (drop i dl), req_enum = enum\<rparr>"
    obtain r err where h: "handle_response (client ?req) (st_results st) = (r, err)"
      by (cases "handle_response (client ?req) (st_results st)")
    let ?st = "\<lparr>st_results = r, st_requests = st_requests st @ [?req],
               st_logged = st_logged st @ (case err of None \<Rightarrow> [] | Some e \<Rightarrow> [e])\<rparr>"
    let ?final = "batch_loop client enum dl (i + batch_size) ?st"
    have step: "batch_loop client enum dl i st = ?final"
      using batch_loop_step [OF True, of client enum st] h by simp
    from batch_loop_requests_prefix [of client enum dl "i + batch_size" ?st]
    have sent: "?req \<in> set (st_requests ?final)" by auto
    from "1.prems" have "st_results ?final d = Some c"
      by (simp only: step)
    from "1.IH" [OF True refl refl h [symmetric] this]
    consider "r d = Some c"
      | "\<exists>req \<in> set (st_requests ?final). (d, c) \<in> set (answers (client req))"
      by auto
    then have "st_results st d = Some c \<or>
       (\<exists>req \<in> set (st_requests ?final). (d, c) \<in> set (answers (client req)))"
    proof cases
      case 1
      then have "fst (handle_response (client ?req) (st_results st)) d = Some c"
        by (simp add: h)
      from handle_response_source [OF this] sent show ?thesis by blast
    qed simp
    then show ?thesis by (simp only: step)
  qed
qed

lemma openai_source_sent:
  assumes "st_results (openai_categorize h self client info ds) d = Some c"
  shows "(c = Uncategorized \<and> d \<in> set ds \<and> info) \<or>
         (\<exists>req \<in> set (st_requests (openai_categorize h self client info ds)).
            (d, c) \<in> set (answers (client req)))"
proof -
  let ?st0 = "\<lparr>st_results = Map.empty, st_requests = [], st_logged = []\<rparr>"
  let ?r = "st_results (openai_categorize h self client False ds)"
  have src: "?r d = Some c \<Longrightarrow> ?thesis"
    unfolding openai_results_False openai_requests
    using batch_loop_source_sent [of client "h (categories self)" ds 0 ?st0 d c]
    by auto
  show ?thesis
  proof (cases info)
    case False
    with assms src show ?thesis by simp
  next
    case True
    with assms have "log_results ds ?r d = Some c" by (simp add: openai_results_True)
    then show ?thesis
      using src True by (cases "?r d") (auto simp: log_results_eq split: if_splits)
  qed
qed

lemma openai_sent_request:
  assumes "req \<in> set (st_requests (openai_categorize h self client info ds))"
  shows "req_enum req = h (categories self) \<and> req_batch req \<noteq> [] \<and>
         length (req_batch req) \<le> batch_size \<and> set (req_batch req) \<subseteq> set ds"
  using assms
    batch_loop_each [of req client "h (categories self)" ds 0
      "\<lparr>st_results = Map.empty, st_requests = [], st_logged = []\<rparr>"]
  by (simp add: openai_requests)


lemma pairs_echo: "pairs (map (\<lambda>d. Item (Some d) (Some c)) ds) = map (\<lambda>d. (d, c)) ds"
  by (induction ds) auto



lemma openai_single_batch:
  assumes "ds \<noteq> []" "length ds \<le> 50"
  shows "openai_categorize h self client info ds =
     \<lparr>st_results =
        (if info
         then log_results ds
                (fst (handle_response (client \<lparr>req_batch = ds, req_enum = h (categories self)\<rparr>) Map.empty))
         else fst (handle_response (client \<lparr>req_batch = ds, req_enum = h (categories self)\<rparr>) Map.empty)),
      st_requests = [\<lparr>req_batch = ds, req_enum = h (categories self)\<rparr>],
      st_logged =
        (case snd (handle_response (client \<lparr>req_batch = ds, req_enum = h (categories self)\<rparr>) Map.empty) of
           None \<Rightarrow> [] | Some e \<Rightarrow> [e])\<rparr>"
proof -
  have "0 < length ds" using assms by simp
  from batch_loop_step [OF this] assms show ?thesis
    by (simp add: openai_categorize_def batch_loop_done batch_size_def Let_def)
qed

section \<open>Properties of the orchestrator\<close>

lemma main_categorize_with_eq:
  assumes "keyword_categorize kc ds = Inr kr"
  shows "main_categorize_with kc tier ds =
     (if uncategorized kr ds \<noteq> [] then
        (case tier (uncategorized kr ds) of
           Inr openai_results \<Rightarrow> Inr (kr ++ openai_results)
         | Inl e \<Rightarrow> Inr kr)
      else Inr kr)"
  using assms by (simp add: main_categorize_with_def)

lemma uncategorized_iff:
  "d \<in> set (uncategorized kr ds) \<longleftrightarrow> d \<in> set ds \<and> kr d = Some Uncategorized"
  by (auto simp: uncategorized_def)

lemma add_defaults:
  assumes "\<And>d. d \<in> dom m \<Longrightarrow> m d = kr d"
  shows "kr ++ m = kr"
proof
  fix d
  show "(kr ++ m) d = kr d"
    using assms [of d] by (cases "m d") (auto simp: map_add_def)
qed

lemma main_categorize_failed:
  assumes kw: "keyword_categorize (keyword_categorizer self) ds = Inr kr"
    and failed: "\<forall>req. client req = Raised \<or> client req = BadOutput"
  shows "main_categorize h self client info ds = Inr kr"
proof -
  let ?u = "uncategorized kr ds"
  let ?m = "st_results (openai_categorize h (openai_categorizer self) client info ?u)"
  have none: "\<forall>req. answers (client req) = []"
  proof
    fix req
    from failed have "client req = Raised \<or> client req = BadOutput" by blast
    then show "answers (client req) = []" by (auto simp: answers_def)
  qed
  have empty: "st_results (openai_categorize h (openai_categorizer self) client False ?u) = Map.empty"
    by (simp add: openai_results_False batch_loop_no_pairs [OF none])
  have "kr ++ ?m = kr"
  proof (rule add_defaults)
    fix d
    assume "d \<in> dom ?m"
    then obtain c where c: "?m d = Some c" by blast
    show "?m d = kr d"
    proof (cases info)
      case False
      with c empty show ?thesis by simp
    next
      case True
      with c have "log_results ?u Map.empty d = Some c"
        by (simp add: openai_results_True empty)
      then have "d \<in> set ?u \<and> c = Uncategorized"
        by (auto simp: log_results_eq split: if_splits)
      with c show ?thesis by (simp add: uncategorized_iff)
    qed
  qed
  then show ?thesis
    by (simp add: main_categorize_def main_categorize_with_eq [OF kw] openai_method_def)
qed








lemma match_category_key:
  "match_category dl kvs = Inr (Some c) \<Longrightarrow> c \<in> fst ` set kvs"
  by (induction kvs) (auto split: sum.splits bool.splits)

lemma keyword_loop_dom:
  "keyword_loop rules ds r = Inr m \<Longrightarrow> dom m = dom r \<union> set ds"
proof (induction ds arbitrary: r)
  case Nil
  then show ?case by simp
next
  case (Cons d ds)
  from Cons.prems obtain c where "keyword_loop rules ds (r(d \<mapsto> c)) = Inr m"
    by (auto split: sum.splits option.splits)
  from Cons.IH [OF this] show ?case by auto
qed

lemma keyword_loop_values:
  "keyword_loop rules ds r = Inr m \<Longrightarrow> m d = Some c \<Longrightarrow>
     r d = Some c \<or> c = Uncategorized \<or> (\<exists>kvs. rules = JObj kvs \<and> c \<in> fst ` set kvs)"
proof (induction ds arbitrary: r)
  case Nil
  then show ?case by simp
next
  case (Cons x ds)
  from Cons.prems(1) obtain kvs where kvs: "py_items rules = Inr kvs"
    by (auto split: sum.splits)
  then have rules: "rules = JObj kvs" by (cases rules) auto
  from Cons.prems(1) kvs obtain mc where mc: "match_category (lower x) kvs = Inr mc"
    by (auto split: sum.splits)
  show ?case
  proof (cases mc)
    case None
    with Cons.prems(1) kvs mc have "keyword_loop rules ds (r(x \<mapsto> Uncategorized)) = Inr m"
      by simp
    from Cons.IH [OF this Cons.prems(2)] show ?thesis by (auto split: if_splits)
  next
    case (Some k)
    with Cons.prems(1) kvs mc have "keyword_loop rules ds (r(x \<mapsto> k)) = Inr m"
      by simp
    from Cons.IH [OF this Cons.prems(2)] match_category_key [of "lower x" kvs k] mc Some rules
    show ?thesis by (auto split: if_splits)
  qed
qed

lemma map_add_cases: "(kr ++ m) d = (case m d of Some c \<Rightarrow> Some c | None \<Rightarrow> kr d)"
  by (simp add: map_add_def)

lemma main_categorize_eq:
  assumes "keyword_categorize (keyword_categorizer self) ds = Inr kr"
  shows "main_categorize h self client info ds =
     Inr (kr ++ st_results (openai_categorize h (openai_categorizer self) client info (uncategorized kr ds)))"
proof (cases "uncategorized kr ds = []")
  case True
  then show ?thesis
    by (simp add: main_categorize_def main_categorize_with_eq [OF assms] openai_categorize_def)
next
  case False
  then show ?thesis
    by (simp add: main_categorize_def main_categorize_with_eq [OF assms] openai_method_def)
qed

text \<open>
  C1 as stated fails: the merge is \<open>dict.update\<close> and nothing filters what the model tier
  returns. A response that names a description in another spelling adds a key that is not
  in the input set.
\<close>

theorem main_categorize_extra_key:
  "main_categorize (\<lambda>a. [''Groceries'', Uncategorized])
     \<lparr>categories = 0,
      keyword_categorizer = \<lparr>categories = 0, keyword_rules = rules_json [(''Groceries'', [''migros''])]\<rparr>,
      openai_categorizer =
        \<lparr>categories = 0, settings = JObj [], model = JStr ''gpt-4.1-nano'', hints = JObj []\<rparr>\<rparr>
     (\<lambda>req. Payload [Item (Some ''Unknown shop'') (Some ''Groceries'')]) True [''Unknown Shop''] =
     Inr [''Unknown Shop'' \<mapsto> Uncategorized, ''Unknown shop'' \<mapsto> ''Groceries''] \<and>
   ''Unknown shop'' \<notin> set [''Unknown Shop'']"
proof -
  let ?kr = "[''Unknown Shop'' \<mapsto> Uncategorized]"
  have f: "first_match [(''Groceries'', [''migros''])] ''Unknown Shop'' = Uncategorized"
    by code_simp
  have "(\<lambda>d. if d \<in> set [''Unknown Shop''] then Some (first_match [(''Groceries'', [''migros''])] d)
             else None) = ?kr"
    by (auto simp: f fun_eq_iff simp del: first_match.simps)
  then have kw: "keyword_categorize \<lparr>categories = 0, keyword_rules = rules_json [(''Groceries'', [''migros''])]\<rparr>
      [''Unknown Shop''] = Inr ?kr"
    by (simp add: keyword_categorize_def keyword_loop_rules del: keyword_loop.simps)
  have u: "uncategorized ?kr [''Unknown Shop''] = [''Unknown Shop'']"
    by (simp add: uncategorized_def)
  let ?self = "\<lparr>categories = 0,
      keyword_categorizer = \<lparr>categories = 0, keyword_rules = rules_json [(''Groceries'', [''migros''])]\<rparr>,
      openai_categorizer =
        \<lparr>categories = 0, settings = JObj [], model = JStr ''gpt-4.1-nano'', hints = JObj []\<rparr>\<rparr>"
  from kw have "keyword_categorize (keyword_categorizer ?self) [''Unknown Shop''] = Inr ?kr"
    by simp
  note eq = main_categorize_eq [OF this]
  show ?thesis
    unfolding eq u
    by (auto simp: openai_single_batch handle_response_def fun_eq_iff map_add_cases)
qed


lemma keyword_categorize_dom:
  "keyword_categorize kc ds = Inr kr \<Longrightarrow> dom kr = set ds"
  using keyword_loop_dom [of "keyword_rules kc" ds Map.empty kr]
  by (simp add: keyword_categorize_def)

lemma keyword_categorize_values:
  "keyword_categorize kc ds = Inr kr \<Longrightarrow> kr d = Some c \<Longrightarrow>
     c = Uncategorized \<or> (\<exists>kvs. keyword_rules kc = JObj kvs \<and> c \<in> fst ` set kvs)"
  using keyword_loop_values [of "keyword_rules kc" ds Map.empty kr d c]
  by (simp add: keyword_categorize_def)

text \<open>
  C1, amended. Whenever the keyword tier returns, \<open>MainCategorizer.categorize\<close> returns a
  mapping that has every description of the input as a key; a key outside the input is a
  description that the service returned to a request that was sent. Every value is
  \<open>Uncategorized\<close>, a category name of the keyword rules, or the category of a pair the
  service returned to a request that was sent. The requests sent carry the configured list
  as enum and only descriptions the keyword tier left uncategorized. So the key set is
  exactly the input when the responses to the requests sent name only descriptions of the
  input (in particular when each names only descriptions of its own batch), and the values
  lie in the configured categories united with \<open>Uncategorized\<close> when the rules name only
  configured categories and those responses keep to the enum.
\<close>

theorem main_categorize_keys_values:
  assumes kw: "keyword_categorize (keyword_categorizer self) ds = Inr kr"
    and same: "categories (openai_categorizer self) = categories self"
  shows "\<exists>m. main_categorize h self client info ds = Inr m \<and>
     set ds \<subseteq> dom m \<and>
     (\<forall>d \<in> dom m. d \<in> set ds \<or>
        (\<exists>req \<in> set (st_requests (openai_categorize h (openai_categorizer self) client info
                         (uncategorized kr ds))).
           \<exists>c. (d, c) \<in> set (answers (client req)))) \<and>
     (\<forall>d c. m d = Some c \<longrightarrow>
        c = Uncategorized \<or>
        (\<exists>kvs. keyword_rules (keyword_categorizer self) = JObj kvs \<and> c \<in> fst ` set kvs) \<or>
        (\<exists>req \<in> set (st_requests (openai_categorize h (openai_categorizer self) client info
                         (uncategorized kr ds))).
           (d, c) \<in> set (answers (client req)))) \<and>
     (\<forall>req \<in> set (st_requests (openai_categorize h (openai_categorizer self) client info
                      (uncategorized kr ds))).
        req_enum req = h (categories self) \<and> set (req_batch req) \<subseteq> set (uncategorized kr ds)) \<and>
     ((\<forall>req \<in> set (st_requests (openai_categorize h (openai_categorizer self) client info
                       (uncategorized kr ds))).
         \<forall>p \<in> set (answers (client req)). fst p \<in> set ds) \<longrightarrow> dom m = set ds) \<and>
     ((\<forall>req \<in> set (st_requests (openai_categorize h (openai_categorizer self) client info
                       (uncategorized kr ds))).
         \<forall>p \<in> set (answers (client req)). fst p \<in> set (req_batch req)) \<longrightarrow> dom m = set ds) \<and>
     ((\<forall>kvs. keyword_rules (keyword_categorizer self) = JObj kvs \<longrightarrow>
          fst ` set kvs \<subseteq> set (h (categories self))) \<longrightarrow>
      (\<forall>req \<in> set (st_requests (openai_categorize h (openai_categorizer self) client info
                       (uncategorized kr ds))).
         \<forall>p \<in> set (answers (client req)). snd p \<in> set (h (categories self))) \<longrightarrow>
      ran m \<subseteq> set (h (categories self)) \<union> {Uncategorized})"
proof -
  let ?u = "uncategorized kr ds"
  let ?oc = "openai_categorize h (openai_categorizer self) client info ?u"
  let ?sent = "st_requests ?oc"
  let ?om = "st_results ?oc"
  let ?m = "kr ++ ?om"
  let ?cats = "set (h (categories self))"
  have main: "main_categorize h self client info ds = Inr ?m"
    by (rule main_categorize_eq [OF kw])
  have domkr: "dom kr = set ds"
    by (rule keyword_categorize_dom [OF kw])
  have u: "set ?u \<subseteq> set ds"
    by (auto simp: uncategorized_def)
  have om: "(c = Uncategorized \<and> d \<in> set ds) \<or>
      (\<exists>req \<in> set ?sent. (d, c) \<in> set (answers (client req)))"
    if "?om d = Some c" for d c
    using openai_source_sent [OF that] u by auto
  have val: "c = Uncategorized \<or>
        (\<exists>kvs. keyword_rules (keyword_categorizer self) = JObj kvs \<and> c \<in> fst ` set kvs) \<or>
        (\<exists>req \<in> set ?sent. (d, c) \<in> set (answers (client req)))"
    if "?m d = Some c" for d c
  proof (cases "?om d")
    case None
    with that have "kr d = Some c" by (simp add: map_add_cases)
    from keyword_categorize_values [OF kw this] show ?thesis by blast
  next
    case (Some c')
    with that have "?om d = Some c" by (simp add: map_add_cases)
    from om [OF this] show ?thesis by blast
  qed
  have 1: "set ds \<subseteq> dom ?m"
    using domkr by auto
  have 2: "\<forall>d \<in> dom ?m. d \<in> set ds \<or>
      (\<exists>req \<in> set ?sent. \<exists>c. (d, c) \<in> set (answers (client req)))"
  proof
    fix d
    assume "d \<in> dom ?m"
    then consider "d \<in> dom kr" | c where "?om d = Some c" by auto
    then show "d \<in> set ds \<or> (\<exists>req \<in> set ?sent. \<exists>c. (d, c) \<in> set (answers (client req)))"
    proof cases
      case 1
      with domkr show ?thesis by simp
    next
      case 2
      from om [OF this] show ?thesis by blast
    qed
  qed
  have 3: "\<forall>req \<in> set ?sent. req_enum req = h (categories self) \<and> set (req_batch req) \<subseteq> set ?u"
  proof
    fix req
    assume "req \<in> set ?sent"
    from openai_sent_request [OF this] same
    show "req_enum req = h (categories self) \<and> set (req_batch req) \<subseteq> set ?u" by simp
  qed
  have 4: "dom ?m = set ds"
    if "\<forall>req \<in> set ?sent. \<forall>p \<in> set (answers (client req)). fst p \<in> set ds"
  proof
    show "set ds \<subseteq> dom ?m" by (rule 1)
    show "dom ?m \<subseteq> set ds"
    proof
      fix d
      assume "d \<in> dom ?m"
      with 2 that show "d \<in> set ds" by fastforce
    qed
  qed
  have 5: "dom ?m = set ds"
    if own: "\<forall>req \<in> set ?sent. \<forall>p \<in> set (answers (client req)). fst p \<in> set (req_batch req)"
  proof (rule 4, intro ballI)
    fix req p
    assume "req \<in> set ?sent" "p \<in> set (answers (client req))"
    with own 3 u show "fst p \<in> set ds" by blast
  qed
  have 6: "ran ?m \<subseteq> ?cats \<union> {Uncategorized}"
    if a: "\<forall>kvs. keyword_rules (keyword_categorizer self) = JObj kvs \<longrightarrow> fst ` set kvs \<subseteq> ?cats"
      and b: "\<forall>req \<in> set ?sent. \<forall>p \<in> set (answers (client req)). snd p \<in> ?cats"
  proof
    fix c
    assume "c \<in> ran ?m"
    then have "\<exists>d. ?m d = Some c" by (simp add: ran_def del: map_add_Some_iff)
    then obtain d where "?m d = Some c" ..
    from val [OF this] a b show "c \<in> ?cats \<union> {Uncategorized}" by fastforce
  qed
  have body: "main_categorize h self client info ds = Inr ?m \<and>
     set ds \<subseteq> dom ?m \<and>
     (\<forall>d \<in> dom ?m. d \<in> set ds \<or>
        (\<exists>req \<in> set ?sent. \<exists>c. (d, c) \<in> set (answers (client req)))) \<and>
     (\<forall>d c. ?m d = Some c \<longrightarrow>
        c = Uncategorized \<or>
        (\<exists>kvs. keyword_rules (keyword_categorizer self) = JObj kvs \<and> c \<in> fst ` set kvs) \<or>
        (\<exists>req \<in> set ?sent. (d, c) \<in> set (answers (client req)))) \<and>
     (\<forall>req \<in> set ?sent.
        req_enum req = h (categories self) \<and> set (req_batch req) \<subseteq> set ?u) \<and>
     ((\<forall>req \<in> set ?sent. \<forall>p \<in> set (answers (client req)). fst p \<in> set ds) \<longrightarrow>
        dom ?m = set ds) \<and>
     ((\<forall>req \<in> set ?sent. \<forall>p \<in> set (answers (client req)). fst p \<in> set (req_batch req)) \<longrightarrow>
        dom ?m = set ds) \<and>
     ((\<forall>kvs. keyword_rules (keyword_categorizer self) = JObj kvs \<longrightarrow> fst ` set kvs \<subseteq> ?cats) \<longrightarrow>
      (\<forall>req \<in> set ?sent. \<forall>p \<in> set (answers (client req)). snd p \<in> ?cats) \<longrightarrow>
      ran ?m \<subseteq> ?cats \<union> {Uncategorized})"
    using main 1 2 val 3 4 5 6 by (intro conjI impI allI) blast+
  show ?thesis
    by (rule exI [where x = ?m]) (rule body)
qed

theorem main_categorize_keys_values_witness:
  "\<exists>m. main_categorize (\<lambda>a. [''Groceries'', ''Transport'', ''Entertainment'', Uncategorized])
         \<lparr>categories = 0,
          keyword_categorizer =
            \<lparr>categories = 0,
             keyword_rules = rules_json [(''Groceries'', [''migros'']), (''Transport'', [''sbb''])]\<rparr>,
          openai_categorizer =
            \<lparr>categories = 0, settings = JObj [], model = JStr ''gpt-4.1-nano'', hints = JObj []\<rparr>\<rparr>
         (\<lambda>req. Payload (map (\<lambda>d. Item (Some d) (Some ''Entertainment'')) (req_batch req))) True
         [''MIGROS Zurich'', ''SBB Ticket'', ''Unknown Shop''] = Inr m \<and>
       dom m = {''MIGROS Zurich'', ''SBB Ticket'', ''Unknown Shop''} \<and>
       ran m \<subseteq> {''Groceries'', ''Transport'', ''Entertainment'', Uncategorized} \<and>
       m ''MIGROS Zurich'' = Some ''Groceries'' \<and>
       m ''SBB Ticket'' = Some ''Transport'' \<and>
       m ''Unknown Shop'' = Some ''Entertainment''"
proof -
  let ?h = "\<lambda>a::addr. [''Groceries'', ''Transport'', ''Entertainment'', Uncategorized]"
  let ?rs = "[(''Groceries'', [''migros'']), (''Transport'', [''sbb''])]"
  let ?kc = "\<lparr>categories = 0, keyword_rules = rules_json ?rs\<rparr>"
  let ?oc = "\<lparr>categories = 0, settings = JObj [], model = JStr ''gpt-4.1-nano'', hints = JObj []\<rparr>"
  let ?self = "\<lparr>categories = 0, keyword_categorizer = ?kc, openai_categorizer = ?oc\<rparr>"
  let ?client = "\<lambda>req::request.
      Payload (map (\<lambda>d. Item (Some d) (Some ''Entertainment'')) (req_batch req))"
  let ?ds = "[''MIGROS Zurich'', ''SBB Ticket'', ''Unknown Shop'']"
  let ?kr = "[''MIGROS Zurich'' \<mapsto> ''Groceries'', ''SBB Ticket'' \<mapsto> ''Transport'',
              ''Unknown Shop'' \<mapsto> Uncategorized]"
  let ?sent = "st_requests (openai_categorize ?h (openai_categorizer ?self) ?client True
      (uncategorized ?kr ?ds))"
  have f1: "first_match ?rs ''MIGROS Zurich'' = ''Groceries''" by code_simp
  have f2: "first_match ?rs ''SBB Ticket'' = ''Transport''" by code_simp
  have f3: "first_match ?rs ''Unknown Shop'' = Uncategorized" by code_simp
  have "(\<lambda>d. if d \<in> set ?ds then Some (first_match ?rs d) else None) = ?kr"
    by (auto simp: f1 f2 f3 fun_eq_iff simp del: first_match.simps)
  then have kw: "keyword_categorize (keyword_categorizer ?self) ?ds = Inr ?kr"
    by (simp add: keyword_categorize_def keyword_loop_rules del: keyword_loop.simps)
  have same: "categories (openai_categorizer ?self) = categories ?self" by simp
  have u: "uncategorized ?kr ?ds = [''Unknown Shop'']"
    by (simp add: uncategorized_def)
  have "\<forall>req. \<forall>p \<in> set (answers (?client req)). fst p \<in> set (req_batch req)"
    by (auto simp: answers_def pairs_echo)
  then have own: "\<forall>req \<in> set ?sent. \<forall>p \<in> set (answers (?client req)). fst p \<in> set (req_batch req)"
    by blast
  have rules: "\<forall>kvs. keyword_rules (keyword_categorizer ?self) = JObj kvs \<longrightarrow>
      fst ` set kvs \<subseteq> set (?h (categories ?self))"
    by (auto simp: rules_json_def)
  have "\<forall>req. \<forall>p \<in> set (answers (?client req)). snd p \<in> set (?h (categories ?self))"
    by (auto simp: answers_def pairs_echo)
  then have enum: "\<forall>req \<in> set ?sent. \<forall>p \<in> set (answers (?client req)).
      snd p \<in> set (?h (categories ?self))"
    by blast
  from main_categorize_keys_values [OF kw same, of ?h ?client True]
  have "\<exists>m. main_categorize ?h ?self ?client True ?ds = Inr m \<and>
      ((\<forall>req \<in> set ?sent. \<forall>p \<in> set (answers (?client req)). fst p \<in> set (req_batch req)) \<longrightarrow>
        dom m = set ?ds) \<and>
      ((\<forall>kvs. keyword_rules (keyword_categorizer ?self) = JObj kvs \<longrightarrow>
          fst ` set kvs \<subseteq> set (?h (categories ?self))) \<longrightarrow>
       (\<forall>req \<in> set ?sent. \<forall>p \<in> set (answers (?client req)).
          snd p \<in> set (?h (categories ?self))) \<longrightarrow>
       ran m \<subseteq> set (?h (categories ?self)) \<union> {Uncategorized})"
    by (elim exE conjE) (rule exI, intro conjI, assumption+)
  then obtain m where m: "main_categorize ?h ?self ?client True ?ds = Inr m"
    and d: "(\<forall>req \<in> set ?sent. \<forall>p \<in> set (answers (?client req)). fst p \<in> set (req_batch req)) \<longrightarrow>
        dom m = set ?ds"
    and r: "(\<forall>kvs. keyword_rules (keyword_categorizer ?self) = JObj kvs \<longrightarrow>
          fst ` set kvs \<subseteq> set (?h (categories ?self))) \<longrightarrow>
      (\<forall>req \<in> set ?sent. \<forall>p \<in> set (answers (?client req)).
          snd p \<in> set (?h (categories ?self))) \<longrightarrow>
      ran m \<subseteq> set (?h (categories ?self)) \<union> {Uncategorized}"
    by (elim exE conjE)
  from d own have "dom m = set ?ds" by blast
  then have 1: "dom m = {''MIGROS Zurich'', ''SBB Ticket'', ''Unknown Shop''}"
    by simp
  from r rules enum have "ran m \<subseteq> set (?h (categories ?self)) \<union> {Uncategorized}"
    by blast
  then have 2: "ran m \<subseteq> {''Groceries'', ''Transport'', ''Entertainment'', Uncategorized}"
    by (simp add: insert_absorb)
  from m main_categorize_eq [OF kw, of ?h ?client True]
  have "m = ?kr ++ st_results (openai_categorize ?h ?oc ?client True (uncategorized ?kr ?ds))"
    by simp
  then have 3: "m ''MIGROS Zurich'' = Some ''Groceries'' \<and> m ''SBB Ticket'' = Some ''Transport'' \<and>
      m ''Unknown Shop'' = Some ''Entertainment''"
    unfolding u
    by (simp add: openai_single_batch handle_response_def map_add_cases log_results_eq)
  from m 1 2 3 show ?thesis by blast
qed

lemma openai_batches_subset:
  "req \<in> set (st_requests (openai_categorize h self client info u)) \<Longrightarrow> set (req_batch req) \<subseteq> set u"
proof -
  assume "req \<in> set (st_requests (openai_categorize h self client info u))"
  then have "set (req_batch req) \<subseteq>
      set (concat (map req_batch (st_requests (openai_categorize h self client info u))))"
    by auto
  also have "concat (map req_batch (st_requests (openai_categorize h self client info u))) = u"
    by (simp add: openai_requests batch_loop_requests)
  finally show ?thesis .
qed

text \<open>
  C2 as stated fails: the model tier's dictionary is merged with \<open>dict.update\<close>, so an
  entry it holds for a description that the keyword tier matched replaces the keyword
  category, although that description was never sent to the service.
\<close>

theorem main_categorize_keyword_overwritten:
  "keyword_categorize \<lparr>categories = 0, keyword_rules = rules_json [(''Groceries'', [''migros''])]\<rparr>
     [''MIGROS Zurich'', ''Unknown Shop''] =
     Inr [''MIGROS Zurich'' \<mapsto> ''Groceries'', ''Unknown Shop'' \<mapsto> Uncategorized] \<and>
   main_categorize (\<lambda>a. [''Groceries'', ''Transport'', Uncategorized])
     \<lparr>categories = 0,
      keyword_categorizer = \<lparr>categories = 0, keyword_rules = rules_json [(''Groceries'', [''migros''])]\<rparr>,
      openai_categorizer =
        \<lparr>categories = 0, settings = JObj [], model = JStr ''gpt-4.1-nano'', hints = JObj []\<rparr>\<rparr>
     (\<lambda>req. Payload [Item (Some ''MIGROS Zurich'') (Some ''Transport''),
                     Item (Some ''Unknown Shop'') (Some ''Transport'')])
     True [''MIGROS Zurich'', ''Unknown Shop''] =
     Inr [''MIGROS Zurich'' \<mapsto> ''Transport'', ''Unknown Shop'' \<mapsto> ''Transport'']"
proof -
  let ?rs = "[(''Groceries'', [''migros''])]"
  let ?kc = "\<lparr>categories = 0, keyword_rules = rules_json ?rs\<rparr>"
  let ?oc = "\<lparr>categories = 0, settings = JObj [], model = JStr ''gpt-4.1-nano'', hints = JObj []\<rparr>"
  let ?self = "\<lparr>categories = 0, keyword_categorizer = ?kc, openai_categorizer = ?oc\<rparr>"
  let ?ds = "[''MIGROS Zurich'', ''Unknown Shop'']"
  let ?kr = "[''MIGROS Zurich'' \<mapsto> ''Groceries'', ''Unknown Shop'' \<mapsto> Uncategorized]"
  have f1: "first_match ?rs ''MIGROS Zurich'' = ''Groceries''" by code_simp
  have f2: "first_match ?rs ''Unknown Shop'' = Uncategorized" by code_simp
  have "(\<lambda>d. if d \<in> set ?ds then Some (first_match ?rs d) else None) = ?kr"
    by (auto simp: f1 f2 fun_eq_iff simp del: first_match.simps)
  then have kw: "keyword_categorize ?kc ?ds = Inr ?kr"
    by (simp add: keyword_categorize_def keyword_loop_rules del: keyword_loop.simps)
  then have "keyword_categorize (keyword_categorizer ?self) ?ds = Inr ?kr"
    by simp
  note eq = main_categorize_eq [OF this]
  have u: "uncategorized ?kr ?ds = [''Unknown Shop'']"
    by (simp add: uncategorized_def)
  show ?thesis
    unfolding eq u
    by (auto simp: kw openai_single_batch handle_response_def fun_eq_iff map_add_cases
          simp del: keyword_loop.simps)
qed

text \<open>
  C2, amended. For rules of the documented shape and a description \<open>d\<close> of the input whose
  first matching category in rule order is \<open>C\<close>, other than \<open>Uncategorized\<close>: the keyword
  tier assigns \<open>C\<close>, \<open>d\<close> is not in the set forwarded to the model tier nor in any batch
  sent, and the final mapping assigns \<open>C\<close> to \<open>d\<close> unless the response to a request that
  was sent names \<open>d\<close>; then it holds the category of such a response. In particular the
  final mapping assigns \<open>C\<close> to \<open>d\<close> whenever each response names only descriptions of the
  batch it answers.
\<close>

theorem main_categorize_keyword_precedence:
  assumes rules: "keyword_rules (keyword_categorizer self) = rules_json rs"
    and d: "d \<in> set ds"
    and C: "first_match rs d \<noteq> Uncategorized"
  shows "\<exists>kr m. keyword_categorize (keyword_categorizer self) ds = Inr kr \<and>
     kr d = Some (first_match rs d) \<and>
     d \<notin> set (uncategorized kr ds) \<and>
     (\<forall>req \<in> set (st_requests (openai_categorize h (openai_categorizer self) client info
                      (uncategorized kr ds))). d \<notin> set (req_batch req)) \<and>
     main_categorize h self client info ds = Inr m \<and>
     (\<exists>c. m d = Some c \<and>
          (c = first_match rs d \<or>
           (\<exists>req \<in> set (st_requests (openai_categorize h (openai_categorizer self) client info
                            (uncategorized kr ds))).
              (d, c) \<in> set (answers (client req))))) \<and>
     ((\<forall>req \<in> set (st_requests (openai_categorize h (openai_categorizer self) client info
                       (uncategorized kr ds))).
         \<forall>c. (d, c) \<notin> set (answers (client req))) \<longrightarrow> m d = Some (first_match rs d)) \<and>
     ((\<forall>req \<in> set (st_requests (openai_categorize h (openai_categorizer self) client info
                       (uncategorized kr ds))).
         \<forall>p \<in> set (answers (client req)). fst p \<in> set (req_batch req)) \<longrightarrow>
        m d = Some (first_match rs d))"
proof -
  let ?kr = "\<lambda>x. if x \<in> set ds then Some (first_match rs x) else None"
  let ?u = "uncategorized ?kr ds"
  let ?oc = "openai_categorize h (openai_categorizer self) client info ?u"
  let ?sent = "st_requests ?oc"
  let ?om = "st_results ?oc"
  let ?m = "?kr ++ ?om"
  have kw: "keyword_categorize (keyword_categorizer self) ds = Inr ?kr"
    by (simp add: keyword_categorize_def rules keyword_loop_rules)
  have krd: "?kr d = Some (first_match rs d)"
    using d by simp
  have nu: "d \<notin> set ?u"
    using C by (simp add: uncategorized_iff)
  have nb: "\<forall>req \<in> set ?sent. d \<notin> set (req_batch req)"
    using openai_batches_subset nu by blast
  have main: "main_categorize h self client info ds = Inr ?m"
    by (rule main_categorize_eq [OF kw])
  have om: "\<exists>req \<in> set ?sent. (d, c) \<in> set (answers (client req))" if "?om d = Some c" for c
    using openai_source_sent [OF that] nu by blast
  have 1: "\<exists>c. ?m d = Some c \<and>
      (c = first_match rs d \<or> (\<exists>req \<in> set ?sent. (d, c) \<in> set (answers (client req))))"
  proof (cases "?om d")
    case None
    with krd show ?thesis by (simp add: map_add_cases)
  next
    case (Some c)
    with om [OF Some] show ?thesis by (simp add: map_add_cases)
  qed
  have 2: "?m d = Some (first_match rs d)"
    if "\<forall>req \<in> set ?sent. \<forall>c. (d, c) \<notin> set (answers (client req))"
  proof (cases "?om d")
    case None
    with krd show ?thesis by (simp add: map_add_cases)
  next
    case (Some c)
    with om [OF Some] that show ?thesis by blast
  qed
  have 3: "?m d = Some (first_match rs d)"
    if own: "\<forall>req \<in> set ?sent. \<forall>p \<in> set (answers (client req)). fst p \<in> set (req_batch req)"
  proof (rule 2, intro ballI allI notI)
    fix req c
    assume req: "req \<in> set ?sent" and a: "(d, c) \<in> set (answers (client req))"
    from own req a have "fst (d, c) \<in> set (req_batch req)" by blast
    with nb req show False by simp
  qed
  have body: "keyword_categorize (keyword_categorizer self) ds = Inr ?kr \<and>
     ?kr d = Some (first_match rs d) \<and>
     d \<notin> set ?u \<and>
     (\<forall>req \<in> set ?sent. d \<notin> set (req_batch req)) \<and>
     main_categorize h self client info ds = Inr ?m \<and>
     (\<exists>c. ?m d = Some c \<and>
          (c = first_match rs d \<or> (\<exists>req \<in> set ?sent. (d, c) \<in> set (answers (client req))))) \<and>
     ((\<forall>req \<in> set ?sent. \<forall>c. (d, c) \<notin> set (answers (client req))) \<longrightarrow>
        ?m d = Some (first_match rs d)) \<and>
     ((\<forall>req \<in> set ?sent. \<forall>p \<in> set (answers (client req)). fst p \<in> set (req_batch req)) \<longrightarrow>
        ?m d = Some (first_match rs d))"
    using kw krd nu nb main 1 2 3 by (intro conjI impI) blast+
  show ?thesis
    by (rule exI [where x = ?kr], rule exI [where x = ?m]) (rule body)
qed

theorem main_categorize_keyword_precedence_witness:
  "\<exists>m. main_categorize (\<lambda>a. [''Groceries'', ''Entertainment'', Uncategorized])
         \<lparr>categories = 0,
          keyword_categorizer = \<lparr>categories = 0, keyword_rules = rules_json [(''Groceries'', [''migros''])]\<rparr>,
          openai_categorizer =
            \<lparr>categories = 0, settings = JObj [], model = JStr ''gpt-4.1-nano'', hints = JObj []\<rparr>\<rparr>
         (\<lambda>req. Payload (map (\<lambda>d. Item (Some d) (Some ''Entertainment'')) (req_batch req))) True
         [''MIGROS Zurich'', ''Unknown Shop''] = Inr m \<and>
       m ''MIGROS Zurich'' = Some ''Groceries''"
proof -
  let ?h = "\<lambda>a::addr. [''Groceries'', ''Entertainment'', Uncategorized]"
  let ?rs = "[(''Groceries'', [''migros''])]"
  let ?kc = "\<lparr>categories = 0, keyword_rules = rules_json ?rs\<rparr>"
  let ?oc = "\<lparr>categories = 0, settings = JObj [], model = JStr ''gpt-4.1-nano'', hints = JObj []\<rparr>"
  let ?self = "\<lparr>categories = 0, keyword_categorizer = ?kc, openai_categorizer = ?oc\<rparr>"
  let ?client = "\<lambda>req::request.
      Payload (map (\<lambda>d. Item (Some d) (Some ''Entertainment'')) (req_batch req))"
  let ?ds = "[''MIGROS Zurich'', ''Unknown Shop'']"
  have f1: "first_match ?rs ''MIGROS Zurich'' = ''Groceries''" by code_simp
  have r: "keyword_rules (keyword_categorizer ?self) = rules_json ?rs" by simp
  have d: "''MIGROS Zurich'' \<in> set ?ds" by simp
  have C: "first_match ?rs ''MIGROS Zurich'' \<noteq> Uncategorized" by (simp only: f1) simp
  have own: "\<forall>req. \<forall>p \<in> set (answers (?client req)). fst p \<in> set (req_batch req)"
    by (auto simp: answers_def pairs_echo)
  from main_categorize_keyword_precedence [OF r d C, of ?h ?client True]
  obtain kr m where m: "main_categorize ?h ?self ?client True ?ds = Inr m"
    and p: "(\<forall>req \<in> set (st_requests (openai_categorize ?h (openai_categorizer ?self) ?client True
                       (uncategorized kr ?ds))).
         \<forall>p \<in> set (answers (?client req)). fst p \<in> set (req_batch req)) \<longrightarrow>
        m ''MIGROS Zurich'' = Some (first_match ?rs ''MIGROS Zurich'')"
    by (elim exE conjE)
  from p own have "m ''MIGROS Zurich'' = Some (first_match ?rs ''MIGROS Zurich'')"
    by blast
  then have "m ''MIGROS Zurich'' = Some ''Groceries''" by (simp only: f1)
  with m show ?thesis by blast
qed

section \<open>Configuration errors\<close>

lemma load_keyword_rules_failed:
  "f = Missing \<or> f = Garbled \<Longrightarrow> load_keyword_rules f = rules_json []"
  by (auto simp: load_keyword_rules_def read_json_def rules_json_def)

lemma keyword_init_rules: "keyword_rules (keyword_init cats f) = load_keyword_rules f"
  by (simp add: keyword_init_def)

lemma main_categorize_with_returns:
  "keyword_categorize kc ds = Inr kr \<Longrightarrow> \<exists>m. main_categorize_with kc tier ds = Inr m"
  by (simp add: main_categorize_with_def split: sum.splits)

text \<open>
  C8 as stated fails: only reading the rules file is guarded. A file that parses to JSON
  of another shape is kept as it is, and the keyword tier, which runs outside the \<open>try\<close> of
  \<open>MainCategorizer.categorize\<close>, raises on it. Here the file is \<open>{"Groceries": null}\<close>.
\<close>

theorem main_categorize_raises:
  "main_categorize (\<lambda>a. [''Groceries'', Uncategorized])
     \<lparr>categories = 0,
      keyword_categorizer = keyword_init 0 (Content (JObj [(''Groceries'', JNull)])),
      openai_categorizer =
        \<lparr>categories = 0, settings = JObj [], model = JStr ''gpt-4.1-nano'', hints = JObj []\<rparr>\<rparr>
     (\<lambda>req. Payload []) True [''Unknown Shop''] = Inl TypeError"
  by (simp add: main_categorize_def main_categorize_with_def keyword_categorize_def
        keyword_init_def categorizer_init_def load_keyword_rules_def read_json_def)

text \<open>
  C8, amended. For every input and every keyword-rules file that is missing, is not
  parseable, or holds an object of category names with lists of keyword strings,
  \<open>categorize\<close> returns a mapping, whatever the model tier does (also when it raises as a
  whole); a missing or unparseable file makes the keyword tier map every description to
  \<open>Uncategorized\<close>, and when every request of the model tier fails the result is the
  mapping of the keyword tier, with its unmatched descriptions under \<open>Uncategorized\<close>.
\<close>

theorem main_categorize_returns:
  assumes "f = Missing \<or> f = Garbled \<or> f = Content (rules_json rs)"
    and "keyword_categorizer self = keyword_init cats f"
  shows "(\<exists>m. main_categorize_with (keyword_init cats f) tier ds = Inr m) \<and>
         (\<exists>m. main_categorize h self client info ds = Inr m) \<and>
         (f = Missing \<or> f = Garbled \<longrightarrow>
            keyword_categorize (keyword_init cats f) ds =
              Inr (\<lambda>d. if d \<in> set ds then Some Uncategorized else None)) \<and>
         ((\<forall>req. client req = Raised \<or> client req = BadOutput) \<longrightarrow>
            main_categorize h self client info ds = keyword_categorize (keyword_init cats f) ds)"
proof -
  from assms(1) obtain rs' where rs': "load_keyword_rules f = rules_json rs'"
    and empty: "f = Missing \<or> f = Garbled \<Longrightarrow> rs' = []"
    using load_keyword_rules_failed [of f]
    by (cases f) (auto simp: load_keyword_rules_def read_json_def)
  have kw: "keyword_categorize (keyword_init cats f) ds =
      Inr (\<lambda>d. if d \<in> set ds then Some (first_match rs' d) else None)"
    by (simp add: keyword_categorize_def keyword_init_rules rs' keyword_loop_rules)
  have 1: "\<exists>m. main_categorize_with (keyword_init cats f) tier ds = Inr m"
    by (rule main_categorize_with_returns [OF kw])
  have 2: "\<exists>m. main_categorize h self client info ds = Inr m"
    unfolding main_categorize_def assms(2) by (rule main_categorize_with_returns [OF kw])
  have 3: "keyword_categorize (keyword_init cats f) ds =
      Inr (\<lambda>d. if d \<in> set ds then Some Uncategorized else None)"
    if "f = Missing \<or> f = Garbled"
    using kw unfolding empty [OF that] by (simp cong: if_cong)
  have 4: "main_categorize h self client info ds = keyword_categorize (keyword_init cats f) ds"
    if "\<forall>req. client req = Raised \<or> client req = BadOutput"
  proof -
    from kw have "keyword_categorize (keyword_categorizer self) ds =
        Inr (\<lambda>d. if d \<in> set ds then Some (first_match rs' d) else None)"
      by (simp only: assms(2))
    from main_categorize_failed [OF this that] kw show ?thesis by simp
  qed
  from 1 2 3 4 show ?thesis by blast
qed

theorem main_categorize_returns_witness:
  "main_categorize_with (keyword_init 0 Missing) (\<lambda>u. Inl RequestError) [''Unknown Shop''] =
     Inr [''Unknown Shop'' \<mapsto> Uncategorized] \<and>
   keyword_categorize (keyword_init 0 Garbled) [''MIGROS Zurich'', ''Unknown Shop''] =
     Inr [''MIGROS Zurich'' \<mapsto> Uncategorized, ''Unknown Shop'' \<mapsto> Uncategorized]"
proof -
  have e1: "(\<lambda>d. if d = ''Unknown Shop'' then Some Uncategorized else None) =
      [''Unknown Shop'' \<mapsto> Uncategorized]"
    by (auto simp: fun_eq_iff)
  have e2: "(\<lambda>d. if d = ''MIGROS Zurich'' \<or> d = ''Unknown Shop'' then Some Uncategorized else None) =
      [''MIGROS Zurich'' \<mapsto> Uncategorized, ''Unknown Shop'' \<mapsto> Uncategorized]"
    by (auto simp: fun_eq_iff)
  note a = main_categorize_returns [where f = Missing and cats = 0 and ds = "[''Unknown Shop'']"
      and tier = "\<lambda>u. Inl RequestError" and h = "\<lambda>a. []" and client = "\<lambda>req. Raised" and info = True
      and self = "\<lparr>categories = 0, keyword_categorizer = keyword_init 0 Missing,
        openai_categorizer =
          \<lparr>categories = 0, settings = JObj [], model = JStr ''gpt-4.1-nano'', hints = JObj []\<rparr>\<rparr>"]
  note b = main_categorize_returns [where f = Garbled and cats = 0
      and ds = "[''MIGROS Zurich'', ''Unknown Shop'']"
      and tier = "\<lambda>u. Inl RequestError" and h = "\<lambda>a. []" and client = "\<lambda>req. Raised" and info = True
      and self = "\<lparr>categories = 0, keyword_categorizer = keyword_init 0 Garbled,
        openai_categorizer =
          \<lparr>categories = 0, settings = JObj [], model = JStr ''gpt-4.1-nano'', hints = JObj []\<rparr>\<rparr>"]
  from a have kw: "keyword_categorize (keyword_init 0 Missing) [''Unknown Shop''] =
      Inr [''Unknown Shop'' \<mapsto> Uncategorized]"
    by (simp add: e1)
  from a obtain m where m: "main_categorize_with (keyword_init 0 Missing) (\<lambda>u. Inl RequestError)
      [''Unknown Shop''] = Inr m"
    by auto
  with kw have 1: "main_categorize_with (keyword_init 0 Missing) (\<lambda>u. Inl RequestError)
      [''Unknown Shop''] = Inr [''Unknown Shop'' \<mapsto> Uncategorized]"
    by (simp add: main_categorize_with_def uncategorized_def)
  from b have 2: "keyword_categorize (keyword_init 0 Garbled) [''MIGROS Zurich'', ''Unknown Shop''] =
      Inr [''MIGROS Zurich'' \<mapsto> Uncategorized, ''Unknown Shop'' \<mapsto> Uncategorized]"
    by (simp add: e2)
  from 1 2 show ?thesis by simp
qed

section \<open>Construction and the shared category list\<close>

lemma openai_init_store:
  "fst (openai_init new_client h cats sf) =
     (if Uncategorized \<notin> set (h cats) then h(cats := h cats @ [Uncategorized]) else h)"
  by (simp add: openai_init_def Let_def)

lemma openai_init_object:
  "snd (openai_init new_client h cats sf) = Inr oc \<Longrightarrow>
     categories oc = cats \<and> settings oc = load_settings sf"
  by (auto simp: openai_init_def Let_def split: sum.splits option.splits if_splits)

lemma main_init_store:
  "fst (main_init new_client h cats kf sf) = fst (openai_init new_client h cats sf)"
  by (cases "openai_init new_client h cats sf") (auto simp: main_init_def Let_def split: sum.splits)

lemma main_init_object:
  assumes "snd (main_init new_client h cats kf sf) = Inr self"
  shows "categories self = cats \<and> keyword_categorizer self = keyword_init cats kf \<and>
         snd (openai_init new_client h cats sf) = Inr (openai_categorizer self)"
proof (cases "openai_init new_client h cats sf")
  case (Pair h' r)
  with assms show ?thesis
    by (cases r) (auto simp: main_init_def Let_def)
qed

text \<open>
  C9. Constructing the model tier, and with it \<open>MainCategorizer\<close>, changes the caller's
  list object in place: \<open>Uncategorized\<close> is appended when it is absent, so afterwards the list
  at the caller's address contains it; no other list object of the store changes. When the
  construction succeeds, the three objects hold the caller's address, so they all see the
  list with \<open>Uncategorized\<close>, and the rules and settings are the ones loaded from the two
  files.
\<close>

theorem main_init_shared_list:
  "fst (main_init new_client h cats kf sf) cats =
     (if Uncategorized \<in> set (h cats) then h cats else h cats @ [Uncategorized]) \<and>
   Uncategorized \<in> set (fst (main_init new_client h cats kf sf) cats) \<and>
   (\<forall>a. a \<noteq> cats \<longrightarrow> fst (main_init new_client h cats kf sf) a = h a) \<and>
   fst (openai_init new_client h cats sf) = fst (main_init new_client h cats kf sf) \<and>
   (\<forall>self. snd (main_init new_client h cats kf sf) = Inr self \<longrightarrow>
      categories self = cats \<and>
      categories (keyword_categorizer self) = cats \<and>
      categories (openai_categorizer self) = cats \<and>
      keyword_rules (keyword_categorizer self) = load_keyword_rules kf \<and>
      settings (openai_categorizer self) = load_settings sf)"
proof -
  have 1: "fst (main_init new_client h cats kf sf) cats =
     (if Uncategorized \<in> set (h cats) then h cats else h cats @ [Uncategorized])"
    by (simp add: main_init_store openai_init_store)
  have 2: "Uncategorized \<in> set (fst (main_init new_client h cats kf sf) cats)"
    by (simp add: 1)
  have 3: "\<forall>a. a \<noteq> cats \<longrightarrow> fst (main_init new_client h cats kf sf) a = h a"
    by (simp add: main_init_store openai_init_store)
  have 4: "fst (openai_init new_client h cats sf) = fst (main_init new_client h cats kf sf)"
    by (simp add: main_init_store)
  have 5: "categories self = cats \<and>
      categories (keyword_categorizer self) = cats \<and>
      categories (openai_categorizer self) = cats \<and>
      keyword_rules (keyword_categorizer self) = load_keyword_rules kf \<and>
      settings (openai_categorizer self) = load_settings sf"
    if "snd (main_init new_client h cats kf sf) = Inr self" for self
    using main_init_object [OF that] openai_init_object [of new_client h cats sf "openai_categorizer self"]
    by (simp add: keyword_init_def categorizer_init_def)
  from 1 2 3 4 5 show ?thesis by blast
qed

theorem main_init_shared_list_witness:
  "main_init (\<lambda>key. None) ((\<lambda>a. [])(0 := [''Groceries'', ''Transport''], 1 := [''other'']))
       0 Missing (Content (JObj [(''openai'', JObj [(''api_key'', JStr ''k'')])])) =
     (((\<lambda>a. [])(0 := [''Groceries'', ''Transport''], 1 := [''other'']))
         (0 := [''Groceries'', ''Transport'', Uncategorized]),
      Inr \<lparr>categories = 0,
           keyword_categorizer = \<lparr>categories = 0, keyword_rules = JObj []\<rparr>,
           openai_categorizer =
             \<lparr>categories = 0,
              settings = JObj [(''openai'', JObj [(''api_key'', JStr ''k'')])],
              model = JStr ''gpt-4.1-nano'', hints = JObj []\<rparr>\<rparr>) \<and>
   fst (main_init (\<lambda>key. None) ((\<lambda>a. [])(0 := [''Groceries'', ''Transport''], 1 := [''other'']))
       0 Missing (Content (JObj [(''openai'', JObj [(''api_key'', JStr ''k'')])]))) 0 =
     [''Groceries'', ''Transport'', Uncategorized] \<and>
   fst (main_init (\<lambda>key. None) ((\<lambda>a. [])(0 := [''Groceries'', ''Transport''], 1 := [''other'']))
       0 Missing (Content (JObj [(''openai'', JObj [(''api_key'', JStr ''k'')])]))) 1 = [''other'']"
proof -
  let ?h = "(\<lambda>a::addr. [])(0 := [''Groceries'', ''Transport''], 1 := [''other''])"
  let ?sf = "Content (JObj [(''openai'', JObj [(''api_key'', JStr ''k'')])])"
  have e: "main_init (\<lambda>key. None) ?h 0 Missing ?sf =
     (?h(0 := [''Groceries'', ''Transport'', Uncategorized]),
      Inr \<lparr>categories = 0,
           keyword_categorizer = \<lparr>categories = 0, keyword_rules = JObj []\<rparr>,
           openai_categorizer =
             \<lparr>categories = 0,
              settings = JObj [(''openai'', JObj [(''api_key'', JStr ''k'')])],
              model = JStr ''gpt-4.1-nano'', hints = JObj []\<rparr>\<rparr>)"
    by (simp add: main_init_def openai_init_def keyword_init_def categorizer_init_def
          load_keyword_rules_def load_settings_def read_json_def Let_def)
  from main_init_shared_list [of "\<lambda>key. None" ?h 0 Missing ?sf]
  have "fst (main_init (\<lambda>key. None) ?h 0 Missing ?sf) 0 = [''Groceries'', ''Transport'', Uncategorized]"
    and "fst (main_init (\<lambda>key. None) ?h 0 Missing ?sf) 1 = [''other'']"
    by simp_all
  with e show ?thesis by simp
qed

section \<open>Properties of the description normalizer\<close>

lemma re_sub_from_no_match:
  "\<not> has_match_from atoms s \<Longrightarrow> re_sub_from atoms repl s = s"
  by (induction s) (auto split: option.splits nat.splits)

lemma re_sub_no_match: "\<not> has_match p s \<Longrightarrow> re_sub p repl s = s"
  by (cases p) (auto simp: re_sub_from_no_match split: option.splits nat.splits)

lemma foldl_re_sub_no_match:
  "\<forall>p \<in> set ps. \<not> has_match p s \<Longrightarrow> foldl (\<lambda>s p. re_sub p [] s) s ps = s"
  by (induction ps) (simp_all add: re_sub_no_match)

lemma takeWhile_head: "s = [] \<or> \<not> P (hd s) \<Longrightarrow> takeWhile P s = []"
  by (cases s) auto

lemma match_here_spaces:
  "match_here [Many Space] s =
     (if s \<noteq> [] \<and> is_space (hd s) then Some (length (takeWhile is_space s)) else None)"
  by (induction s) (auto simp: takeWhile_head)

lemma collapse_Cons:
  "re_sub_from [Many Space] r (c # s) =
     (if is_space c then r @ re_sub_from [Many Space] r (dropWhile is_space s)
      else c # re_sub_from [Many Space] r s)"
  by (simp add: match_here_spaces dropWhile_eq_drop del: match_here.simps)

lemma space_is_space: "is_space CHR '' ''"
  by (simp add: is_space_def)

lemma collapse_head:
  "s = [] \<or> \<not> is_space (hd s) \<Longrightarrow>
     re_sub_from [Many Space] '' '' s = [] \<or> \<not> is_space (hd (re_sub_from [Many Space] '' '' s))"
  by (cases s) (auto simp: collapse_Cons simp del: re_sub_from.simps(2))

lemma ws_normal_Cons:
  "ws_normal (c # s) \<longleftrightarrow>
     (is_space c \<longrightarrow> c = CHR '' '' \<and> (s = [] \<or> \<not> is_space (hd s))) \<and> ws_normal s"
  by (cases s) auto

lemma collapse_normal: "ws_normal (re_sub_from [Many Space] '' '' s)"
proof (induction "length s" arbitrary: s rule: less_induct)
  case less
  show ?case
  proof (cases s)
    case Nil
    then show ?thesis by simp
  next
    case (Cons c t)
    show ?thesis
    proof (cases "is_space c")
      case True
      let ?t = "dropWhile is_space t"
      have "length ?t < length s"
        using Cons length_dropWhile_le [of is_space t] by simp
      then have n: "ws_normal (re_sub_from [Many Space] '' '' ?t)" by (rule less)
      have "?t = [] \<or> \<not> is_space (hd ?t)"
        using hd_dropWhile [of is_space t] by blast
      from collapse_head [OF this] n show ?thesis
        by (simp add: Cons True collapse_Cons ws_normal_Cons del: re_sub_from.simps(2) ws_normal.simps)
    next
      case False
      have "length t < length s" using Cons by simp
      then have "ws_normal (re_sub_from [Many Space] '' '' t)" by (rule less)
      with False show ?thesis
        by (simp add: Cons collapse_Cons ws_normal_Cons del: re_sub_from.simps(2) ws_normal.simps)
    qed
  qed
qed

lemma normal_collapse: "ws_normal s \<Longrightarrow> re_sub_from [Many Space] '' '' s = s"
proof (induction s)
  case Nil
  show ?case by simp
next
  case (Cons c s)
  from Cons.prems have n: "ws_normal s"
    and sp: "is_space c \<Longrightarrow> c = CHR '' '' \<and> (s = [] \<or> \<not> is_space (hd s))"
    by (simp_all add: ws_normal_Cons del: ws_normal.simps)
  show ?case
  proof (cases "is_space c")
    case True
    from sp [OF True] have "dropWhile is_space s = s" by (cases s) auto
    with True sp [OF True] Cons.IH [OF n] show ?thesis
      by (simp add: collapse_Cons del: re_sub_from.simps(2))
  next
    case False
    with Cons.IH [OF n] show ?thesis
      by (simp add: collapse_Cons del: re_sub_from.simps(2))
  qed
qed

lemma ws_normal_suffix: "ws_normal (xs @ ys) \<Longrightarrow> ws_normal ys"
  by (induction xs) (simp_all add: ws_normal_Cons del: ws_normal.simps)

lemma ws_normal_prefix: "ws_normal (xs @ ys) \<Longrightarrow> ws_normal xs"
proof (induction xs)
  case Nil
  show ?case by simp
next
  case (Cons c xs)
  then show ?case
    by (cases xs) (auto simp: ws_normal_Cons simp del: ws_normal.simps)
qed

lemma strip_normal: "ws_normal s \<Longrightarrow> ws_normal (strip s)"
proof -
  assume n: "ws_normal s"
  let ?t = "dropWhile is_space s"
  have "s = takeWhile is_space s @ ?t" by simp
  with n have t: "ws_normal ?t" by (metis ws_normal_suffix)
  have "rev ?t = takeWhile is_space (rev ?t) @ dropWhile is_space (rev ?t)" by simp
  then have "?t = rev (dropWhile is_space (rev ?t)) @ rev (takeWhile is_space (rev ?t))"
    by (metis rev_append rev_rev_ident)
  with t have "ws_normal (rev (dropWhile is_space (rev ?t)))" by (metis ws_normal_prefix)
  then show ?thesis by (simp add: strip_def)
qed

lemma dropWhile_rev_fixed:
  assumes "t = [] \<or> \<not> P (hd t)"
  shows "dropWhile P (rev (dropWhile P (rev t))) = rev (dropWhile P (rev t))"
proof (cases t)
  case Nil
  then show ?thesis by simp
next
  case (Cons c u)
  with assms have c: "\<not> P c" by simp
  have "rev t = rev u @ [c]" using Cons by simp
  then have "dropWhile P (rev t) = dropWhile P (rev u) @ [c]"
    using c by (simp add: dropWhile_append3)
  then have "rev (dropWhile P (rev t)) = c # rev (dropWhile P (rev u))" by simp
  with c show ?thesis by simp
qed

lemma strip_idem: "strip (strip s) = strip s"
proof -
  let ?t = "dropWhile is_space s"
  have "?t = [] \<or> \<not> is_space (hd ?t)"
    using hd_dropWhile [of is_space s] by blast
  from dropWhile_rev_fixed [of ?t is_space, OF this]
  have a: "dropWhile is_space (strip s) = strip s"
    by (simp only: strip_def)
  have "strip (strip s) = rev (dropWhile is_space (rev (strip s)))"
    by (subst strip_def) (simp only: a)
  also have "rev (strip s) = dropWhile is_space (rev ?t)"
    by (simp only: strip_def rev_rev_ident)
  also have "dropWhile is_space (dropWhile is_space (rev ?t)) = dropWhile is_space (rev ?t)"
    by (rule dropWhile_idem)
  finally show ?thesis by (simp only: strip_def)
qed


text \<open>
  C7 as stated fails: the six removals run once, in order, before the whitespace is
  collapsed and trimmed. Removing the date and time leaves a space in front of
  \<open>Einkauf\<close>, so the anchored pattern \<open>^Einkauf\s+\<close> does not match in the first pass; after
  trimming it does, and a second pass removes the word.
\<close>

theorem clean_description_not_idempotent:
  "clean_description ''12.03.2024 10:15 Einkauf Migros'' = ''Einkauf Migros'' \<and>
   clean_description (clean_description ''12.03.2024 10:15 Einkauf Migros'') = ''Migros''"
  by code_simp

text \<open>
  C7, amended. Cleaning a cleaned description again leaves it unchanged whenever the
  cleaned description holds no match of any of the six removal patterns; the last stage
  alone (collapsing whitespace, then trimming) is idempotent on every string.
\<close>

theorem clean_description_idempotent_without_match:
  "((\<forall>p \<in> set patterns. \<not> has_match p (clean_description x)) \<longrightarrow>
      clean_description (clean_description x) = clean_description x) \<and>
   strip (re_sub (Anywhere [Many Space]) '' ''
     (strip (re_sub (Anywhere [Many Space]) '' '' s))) =
     strip (re_sub (Anywhere [Many Space]) '' '' s)"
proof -
  have ws: "strip (re_sub (Anywhere [Many Space]) '' ''
      (strip (re_sub (Anywhere [Many Space]) '' '' z))) =
      strip (re_sub (Anywhere [Many Space]) '' '' z)" for z
  proof -
    let ?c = "re_sub_from [Many Space] '' '' z"
    have "ws_normal (strip ?c)"
      by (rule strip_normal) (rule collapse_normal)
    then have "re_sub_from [Many Space] '' '' (strip ?c) = strip ?c"
      by (rule normal_collapse)
    then show ?thesis
      by (simp add: strip_idem del: re_sub_from.simps)
  qed
  have "clean_description (clean_description x) = clean_description x"
    if "\<forall>p \<in> set patterns. \<not> has_match p (clean_description x)"
  proof -
    from that have "remove_patterns (clean_description x) = clean_description x"
      unfolding remove_patterns_def by (rule foldl_re_sub_no_match)
    then have "clean_description (clean_description x) =
        strip (re_sub (Anywhere [Many Space]) '' '' (clean_description x))"
      by (simp add: clean_description_def [of "clean_description x"])
    also have "\<dots> = clean_description x"
      unfolding clean_description_def by (rule ws)
    finally show ?thesis .
  qed
  with ws show ?thesis by blast
qed

theorem clean_description_idempotent_without_match_witness:
  "clean_description ''Einkauf  Migros Karte: 1234****5678'' = ''Migros'' \<and>
   clean_description (clean_description ''Einkauf  Migros Karte: 1234****5678'') =
     clean_description ''Einkauf  Migros Karte: 1234****5678''"
proof -
  have v: "clean_description ''Einkauf  Migros Karte: 1234****5678'' = ''Migros''"
    by code_simp
  have "\<forall>p \<in> set patterns. \<not> has_match p ''Migros''"
    by code_simp
  then have "\<forall>p \<in> set patterns. \<not> has_match p (clean_description ''Einkauf  Migros Karte: 1234****5678'')"
    by (simp only: v)
  with clean_description_idempotent_without_match [of "''Einkauf  Migros Karte: 1234****5678''"]
  have "clean_description (clean_description ''Einkauf  Migros Karte: 1234****5678'') =
     clean_description ''Einkauf  Migros Karte: 1234****5678''"
    by blast
  with v show ?thesis by blast
qed

end
